theory Spec2Isabelle
  imports Main "HOL-Library.Word" "HOL-Library.Option_ord"
begin

unbundle bit_operations_syntax

section \<open>Signed-identity protocol: pkg/crypto/crypto.go\<close>

text \<open>
  A Go \<open>string\<close> and a \<open>[]byte\<close> are both byte sequences; the conversions between them
  copy the bytes. Both are modelled as \<open>string\<close> (a list of 8-bit \<open>char\<close>).
\<close>

type_synonym bytes = string

subsection \<open>strings.Split with a one-byte separator\<close>

text \<open>
  \<open>strings.Split(s, ".")\<close> returns the substrings between the separators: one more part
  than there are separators, so a string without a separator (also the empty string) gives
  one part.
\<close>

fun Split :: "string \<Rightarrow> char \<Rightarrow> string list" where
  "Split [] sep = [[]]"
| "Split (c # cs) sep =
     (if c = sep then [] # Split cs sep
      else (case Split cs sep of [] \<Rightarrow> [[c]] | p # ps \<Rightarrow> (c # p) # ps))"

subsection \<open>encoding/base64, StdEncoding\<close>

definition encodeStd :: string where
  "encodeStd = ''ABCDEFGHIJKLMNOPQRSTUVWXYZabcdefghijklmnopqrstuvwxyz0123456789+/''"

definition enc6 :: "nat \<Rightarrow> char" where
  "enc6 n = encodeStd ! n"

fun index_of :: "'a \<Rightarrow> 'a list \<Rightarrow> nat option" where
  "index_of c [] = None"
| "index_of c (x # xs) = (if x = c then Some 0 else map_option Suc (index_of c xs))"

definition dec6 :: "char \<Rightarrow> nat option" where
  "dec6 c = index_of c encodeStd"

text \<open>
  The encoder packs three bytes into a 24-bit group (\<open>src[0]<<16 | src[1]<<8 | src[2]\<close>)
  and emits its four 6-bit digits (\<open>val>>18 & 0x3F\<close>, ...); the decoder packs four digits
  (\<open>d[0]<<18 | d[1]<<12 | d[2]<<6 | d[3]\<close>) and emits the three bytes \<open>val>>16\<close>,
  \<open>val>>8\<close>, \<open>val\<close>, each truncated to a byte.
\<close>

definition group24 :: "nat \<Rightarrow> nat \<Rightarrow> nat \<Rightarrow> nat" where
  "group24 a b c = a * 65536 + b * 256 + c"

definition sextet :: "nat \<Rightarrow> nat \<Rightarrow> nat" where
  "sextet val k = (val div 2 ^ k) mod 64"

definition quad24 :: "nat \<Rightarrow> nat \<Rightarrow> nat \<Rightarrow> nat \<Rightarrow> nat" where
  "quad24 x y z w = x * 262144 + y * 4096 + z * 64 + w"

definition octet :: "nat \<Rightarrow> nat \<Rightarrow> char" where
  "octet val k = char_of (val div 2 ^ k)"

text \<open>
  \<open>EncodeToString\<close>: three bytes become four characters; a rest of one or two bytes gives
  two or three characters and is padded with \<open>=\<close>.
\<close>

fun EncodeToString :: "bytes \<Rightarrow> string" where
  "EncodeToString [] = []"
| "EncodeToString [a] =
     [enc6 (sextet (group24 (of_char a) 0 0) 18), enc6 (sextet (group24 (of_char a) 0 0) 12),
      CHR ''='', CHR ''='']"
| "EncodeToString [a, b] =
     [enc6 (sextet (group24 (of_char a) (of_char b) 0) 18),
      enc6 (sextet (group24 (of_char a) (of_char b) 0) 12),
      enc6 (sextet (group24 (of_char a) (of_char b) 0) 6), CHR ''='']"
| "EncodeToString (a # b # c # rest) =
     enc6 (sextet (group24 (of_char a) (of_char b) (of_char c)) 18) #
     enc6 (sextet (group24 (of_char a) (of_char b) (of_char c)) 12) #
     enc6 (sextet (group24 (of_char a) (of_char b) (of_char c)) 6) #
     enc6 (sextet (group24 (of_char a) (of_char b) (of_char c)) 0) #
     EncodeToString rest"

text \<open>
  \<open>DecodeString\<close>: the decoder skips every carriage return and line feed, then reads
  quanta of four characters. Padding is accepted only in the last quantum, as \<open>xx==\<close>
  (one byte) or \<open>xxx=\<close> (two bytes); a character outside the alphabet, padding anywhere
  else, and a rest of one to three characters are a \<open>CorruptInputError\<close> (\<open>None\<close>).
  StdEncoding is not strict: the unused low bits of the last digit are not checked.
\<close>

fun decode_quanta :: "string \<Rightarrow> bytes option" where
  "decode_quanta [] = Some []"
| "decode_quanta (c0 # c1 # c2 # c3 # rest) =
     (case dec6 c0 of None \<Rightarrow> None
      | Some x \<Rightarrow>
     (case dec6 c1 of None \<Rightarrow> None
      | Some y \<Rightarrow>
        if c2 = CHR ''='' then
          (if c3 = CHR ''='' \<and> rest = [] then Some [octet (quad24 x y 0 0) 16] else None)
        else
     (case dec6 c2 of None \<Rightarrow> None
      | Some z \<Rightarrow>
        if c3 = CHR ''='' then
          (if rest = []
           then Some [octet (quad24 x y z 0) 16, octet (quad24 x y z 0) 8]
           else None)
        else
     (case dec6 c3 of None \<Rightarrow> None
      | Some w \<Rightarrow>
     (case decode_quanta rest of None \<Rightarrow> None
      | Some bs \<Rightarrow>
          Some (octet (quad24 x y z w) 16 # octet (quad24 x y z w) 8 #
                octet (quad24 x y z w) 0 # bs))))))"
| "decode_quanta _ = None"

definition DecodeString :: "string \<Rightarrow> bytes option" where
  "DecodeString s = decode_quanta (filter (\<lambda>c. c \<noteq> CHR 0x0A \<and> c \<noteq> CHR 0x0D) s)"

subsection \<open>crypto/sha256 and crypto/hmac\<close>

text \<open>
  The two standard-library primitives \<open>Generate\<close> and \<open>Verify\<close> call, written out after
  FIPS 180-4 and RFC 2104 so that every definition below computes.
\<close>

definition be32 :: "bytes \<Rightarrow> 32 word" where
  "be32 bs = foldl (\<lambda>w c. push_bit 8 w OR of_char c) 0 (take 4 bs)"

definition be32_bytes :: "32 word \<Rightarrow> bytes" where
  "be32_bytes w = map (\<lambda>i. char_of (unat (drop_bit (24 - 8 * i) w))) [0..<4]"

definition be64_bytes :: "64 word \<Rightarrow> bytes" where
  "be64_bytes w = map (\<lambda>i. char_of (unat (drop_bit (56 - 8 * i) w))) [0..<8]"

definition rotr :: "nat \<Rightarrow> 32 word \<Rightarrow> 32 word" where
  "rotr n x = drop_bit n x OR push_bit (32 - n) x"

definition Ch :: "32 word \<Rightarrow> 32 word \<Rightarrow> 32 word \<Rightarrow> 32 word" where
  "Ch x y z = (x AND y) XOR (NOT x AND z)"

definition Maj :: "32 word \<Rightarrow> 32 word \<Rightarrow> 32 word \<Rightarrow> 32 word" where
  "Maj x y z = (x AND y) XOR (x AND z) XOR (y AND z)"

definition bsig0 :: "32 word \<Rightarrow> 32 word" where
  "bsig0 x = rotr 2 x XOR rotr 13 x XOR rotr 22 x"

definition bsig1 :: "32 word \<Rightarrow> 32 word" where
  "bsig1 x = rotr 6 x XOR rotr 11 x XOR rotr 25 x"

definition ssig0 :: "32 word \<Rightarrow> 32 word" where
  "ssig0 x = rotr 7 x XOR rotr 18 x XOR drop_bit 3 x"

definition ssig1 :: "32 word \<Rightarrow> 32 word" where
  "ssig1 x = rotr 17 x XOR rotr 19 x XOR drop_bit 10 x"

text \<open>
  The constants of SHA-256, by their definition: the round constants are the first 32 bits
  of the fractional parts of the cube roots of the first 64 primes, the initial hash value
  those of the square roots of the first 8 primes (listed, so that the length is plain). \<open>iroot k n\<close> is the integer part of
  the \<open>k\<close>-th root of \<open>n\<close> (for \<open>n\<close> below \<open>2 ^ (40 * k)\<close>), found bit by bit.
\<close>

definition is_prime :: "nat \<Rightarrow> bool" where
  "is_prime n \<longleftrightarrow> 1 < n \<and> list_all (\<lambda>d. n mod d \<noteq> 0) [2..<n]"

definition first_primes :: "nat \<Rightarrow> nat list" where
  "first_primes k = take k (filter is_prime [2..<312])"

definition iroot :: "nat \<Rightarrow> nat \<Rightarrow> nat" where
  "iroot k n = foldl (\<lambda>r i. if (r + 2 ^ i) ^ k \<le> n then r + 2 ^ i else r) 0 (rev [0..<40])"

definition sha256_K :: "32 word list" where
  "sha256_K = map (\<lambda>p. word_of_nat (iroot 3 (p * 2 ^ 96))) (first_primes 64)"

definition sha256_init :: "32 word list" where
  "sha256_init = map (\<lambda>p. word_of_nat (iroot 2 (p * 2 ^ 64))) [2, 3, 5, 7, 11, 13, 17, 19]"

definition sha256_pad :: "bytes \<Rightarrow> bytes" where
  "sha256_pad m =
     m @ [CHR 0x80] @ replicate ((119 - length m mod 64) mod 64) (CHR 0x00)
       @ be64_bytes (word_of_nat (8 * length m))"

fun schedule :: "nat \<Rightarrow> 32 word list \<Rightarrow> 32 word list" where
  "schedule 0 w = w"
| "schedule (Suc n) w =
     schedule n (w @ [ssig1 (w ! (length w - 2)) + w ! (length w - 7)
                      + ssig0 (w ! (length w - 15)) + w ! (length w - 16)])"

fun sha256_round :: "32 word list \<Rightarrow> 32 word \<times> 32 word \<Rightarrow> 32 word list" where
  "sha256_round [a, b, c, d, e, f, g, h] (k, w) =
     (let t1 = h + bsig1 e + Ch e f g + k + w;
          t2 = bsig0 a + Maj a b c
      in [t1 + t2, a, b, c, d + t1, e, f, g])"
| "sha256_round st _ = st"

definition sha256_block :: "32 word list \<Rightarrow> bytes \<Rightarrow> 32 word list" where
  "sha256_block hs blk =
     (let w = schedule 48 (map (\<lambda>i. be32 (drop (4 * i) blk)) [0..<16])
      in map2 (+) hs (foldl sha256_round hs (zip sha256_K w)))"

definition sha256 :: "bytes \<Rightarrow> bytes" where
  "sha256 m =
     (let p = sha256_pad m;
          blocks = map (\<lambda>i. take 64 (drop (64 * i) p)) [0..<length p div 64]
      in concat (map be32_bytes (foldl sha256_block sha256_init blocks)))"

text \<open>
  \<open>hmac.New(sha256.New, key)\<close>: a key longer than the 64-byte block is hashed first, and
  the key is then filled with zero bytes up to the block size.
\<close>

definition hmac_key :: "bytes \<Rightarrow> bytes" where
  "hmac_key key =
     (let k = (if length key > 64 then sha256 key else key)
      in k @ replicate (64 - length k) (CHR 0x00))"

definition xor_pad :: "nat \<Rightarrow> bytes \<Rightarrow> bytes" where
  "xor_pad p k = map (\<lambda>c. char_of ((of_char c :: nat) XOR p)) k"

definition hmac_sha256 :: "bytes \<Rightarrow> bytes \<Rightarrow> bytes" where
  "hmac_sha256 key msg =
     sha256 (xor_pad 0x5c (hmac_key key) @ sha256 (xor_pad 0x36 (hmac_key key) @ msg))"

subsection \<open>Generate and Verify\<close>

datatype crypto_error =
    EmptyInput          \<comment> \<open>"text and secretKey cannot be empty"\<close>
  | InvalidFormat       \<comment> \<open>"invalid signed text format"\<close>
  | CorruptInput        \<comment> \<open>base64.CorruptInputError\<close>

definition Generate :: "string \<Rightarrow> string \<Rightarrow> crypto_error + string" where
  "Generate text secretKey =
     (if text = [] \<or> secretKey = [] then Inl EmptyInput
      else
        let encodedText = EncodeToString text;
            signature = EncodeToString (hmac_sha256 secretKey text)
        in Inr (encodedText @ ''.'' @ signature))"

text \<open>
  \<open>Verify\<close> returns \<open>(bool, string, error)\<close>; with an error the other two are
  \<open>false\<close> and \<open>""\<close>, so the result is a sum. \<open>hmac.Equal\<close> is equality of the two byte
  sequences, computed in constant time.
\<close>

definition Verify :: "string \<Rightarrow> string \<Rightarrow> crypto_error + (bool \<times> string)" where
  "Verify signedText secretKey =
     (let parts = Split signedText (CHR ''.'') in
      if length parts \<noteq> 2 then Inl InvalidFormat
      else
        case DecodeString (parts ! 0) of
          None \<Rightarrow> Inl CorruptInput
        | Some textBytes \<Rightarrow>
            let originalText = textBytes;
                expectedSignature = hmac_sha256 secretKey originalText
            in case DecodeString (parts ! 1) of
                 None \<Rightarrow> Inl CorruptInput
               | Some inputSignature \<Rightarrow>
                   if inputSignature \<noteq> expectedSignature then Inr (False, [])
                   else Inr (True, originalText))"

text \<open>
  The two uses of the pair in the repository: \<open>AgentUsecase.Create\<close> issues a token with
  \<open>Generate(agent.UUID, cfg.Security.AgentSig)\<close>, and the middleware
  \<open>InternalGetConfigVaidation\<close> checks the bearer token with
  \<open>Verify(token, cfg.Security.AgentSig)\<close>. \<open>issue_then_verify v s s'\<close> is the token issued
  for \<open>v\<close> under \<open>s\<close>, verified under \<open>s'\<close>; an error of \<open>Generate\<close> leaves no token
  to verify.
\<close>

definition issue_then_verify :: "string \<Rightarrow> string \<Rightarrow> string \<Rightarrow> crypto_error + (bool \<times> string)" where
  "issue_then_verify v s s' =
     (case Generate v s of Inl e \<Rightarrow> Inl e | Inr signedText \<Rightarrow> Verify signedText s')"

text \<open>
  The structural condition on a token, in the words of the specification: it splits into
  exactly two parts at the delimiter, and each part is valid base64.
\<close>

definition well_formed_token :: "string \<Rightarrow> bool" where
  "well_formed_token t =
     (case Split t (CHR ''.'') of
        [p0, p1] \<Rightarrow> DecodeString p0 \<noteq> None \<and> DecodeString p1 \<noteq> None
      | _ \<Rightarrow> False)"

section \<open>Hub: the version-authoritative store\<close>

subsection \<open>Entities (internal/domain/config/entity.go) and errors (pkg/errors/errors.go)\<close>

record Config =
  UUID :: string
  Version :: int
  ConfigURL :: string
  PoolingInterval :: int
  CreatedAt :: string

record SaveCreate =
  sc_ConfigUrl :: string            \<comment> \<open>binding:"required"\<close>
  sc_PoolingInterval :: int         \<comment> \<open>binding:"min=30"\<close>

record SaveUpdate =
  su_ConfigUrl :: string            \<comment> \<open>binding:"omitempty"\<close>
  su_PoolingInterval :: "int option"  \<comment> \<open>a \<open>*int\<close>, binding:"omitempty,min=30"\<close>

text \<open>
  An error is either an \<open>*AppError\<close> (its \<open>Code\<close> and the error it wraps) or an error of
  a driver (gorm, redis). \<open>errors.Wrap(err, "config", msg)\<close> puts its second argument in
  the \<open>Code\<close> field.
\<close>

datatype app_error =
    Raw string
  | AppError string "app_error option"

definition NotFound :: app_error where
  "NotFound = AppError ''ERR_NOT_FOUND'' None"

definition Database :: "app_error \<Rightarrow> app_error" where
  "Database e = AppError ''ERR_DATABASE'' (Some e)"

definition Wrap :: "app_error \<Rightarrow> string \<Rightarrow> app_error" where
  "Wrap e code = AppError code (Some e)"

definition ValidationFailed :: app_error where
  "ValidationFailed = AppError ''ERR_VALIDATION'' None"

text \<open>\<open>IsNotFound\<close>: the first \<open>*AppError\<close> of the chain has the code \<open>ERR_NOT_FOUND\<close>.\<close>

fun IsNotFound :: "app_error \<Rightarrow> bool" where
  "IsNotFound (AppError code _) = (code = ''ERR_NOT_FOUND'')"
| "IsNotFound (Raw _) = False"

subsection \<open>Go's \<open>int\<close> and the columns of type INT\<close>

text \<open>
  \<open>Version\<close> and \<open>PoolingInterval\<close> are Go \<open>int\<close>s (64 bits on the platforms the services
  are built for): arithmetic wraps around. Both columns of the table \<open>config\<close> have the
  type \<open>int\<close> (gorm tag \<open>type:int\<close>), a 32-bit integer in PostgreSQL, which refuses a value
  out of its range.
\<close>

definition go_int :: "int \<Rightarrow> int" where
  "go_int n = (n + 9223372036854775808) mod 18446744073709551616 - 9223372036854775808"

definition int4 :: "int \<Rightarrow> bool" where
  "int4 n \<longleftrightarrow> - 2147483648 \<le> n \<and> n \<le> 2147483647"

subsection \<open>The store and its cache\<close>

text \<open>
  The state of the hub: the rows of the table \<open>config\<close> (primary key \<open>uuid\<close>) and the
  value under the Redis key \<open>config:latest\<close>. Each operation makes at most one call of
  each kind to the database and to Redis; \<open>faults\<close> says which of them fail in this
  operation (connection lost, timeout).
\<close>

record hub =
  rows :: "Config list"
  cache :: "Config option"

record faults =
  db_read_fails :: bool
  db_write_fails :: bool
  cache_read_fails :: bool
  cache_write_fails :: bool

definition healthy :: faults where
  "healthy = \<lparr>db_read_fails = False, db_write_fails = False,
              cache_read_fails = False, cache_write_fails = False\<rparr>"

text \<open>
  \<open>ORDER BY version DESC LIMIT 1\<close>: a row of the greatest version (the first such row of
  the list when several rows share it).
\<close>

fun latest_row :: "Config list \<Rightarrow> Config option" where
  "latest_row [] = None"
| "latest_row (r # rs) =
     (case latest_row rs of
        None \<Rightarrow> Some r
      | Some m \<Rightarrow> if Version r < Version m then Some m else Some r)"

text \<open>internal/repository/config/config_repository.go\<close>

definition repo_GetLatestConfig :: "faults \<Rightarrow> hub \<Rightarrow> app_error + Config" where
  "repo_GetLatestConfig f h =
     (if db_read_fails f then Inl (Database (Raw ''db''))
      else case latest_row (rows h) of
             None \<Rightarrow> Inl NotFound
           | Some cfg \<Rightarrow> Inr cfg)"

definition fits_columns :: "Config \<Rightarrow> bool" where
  "fits_columns c \<longleftrightarrow> int4 (Version c) \<and> int4 (PoolingInterval c)"

text \<open>\<open>db.Create\<close>: an INSERT; it fails on a duplicate primary key.\<close>

definition repo_Create :: "faults \<Rightarrow> Config \<Rightarrow> hub \<Rightarrow> app_error + hub" where
  "repo_Create f c h =
     (if db_write_fails f \<or> \<not> fits_columns c \<or> UUID c \<in> set (map UUID (rows h))
      then Inl (Raw ''db'')
      else Inr (h\<lparr>rows := rows h @ [c]\<rparr>))"

text \<open>
  \<open>db.Save\<close>: with an empty primary key an INSERT; otherwise an UPDATE of all fields of
  the row with this key, and an insert when there is no such row.
\<close>

definition repo_Update :: "faults \<Rightarrow> Config \<Rightarrow> hub \<Rightarrow> app_error + hub" where
  "repo_Update f c h =
     (if db_write_fails f \<or> \<not> fits_columns c then Inl (Raw ''db'')
      else if UUID c \<in> set (map UUID (rows h)) then
        (if UUID c = [] then Inl (Raw ''db'')
         else Inr (h\<lparr>rows := map (\<lambda>r. if UUID r = UUID c then c else r) (rows h)\<rparr>))
      else Inr (h\<lparr>rows := rows h @ [c]\<rparr>))"

text \<open>
  The cache (unnamed part: package cache). The value is stored as JSON; the model keeps
  the Config itself.
\<close>

definition cache_SetConfig :: "faults \<Rightarrow> Config \<Rightarrow> hub \<Rightarrow> app_error + hub" where
  "cache_SetConfig f c h =
     (if cache_write_fails f then Inl (Raw ''redis'') else Inr (h\<lparr>cache := Some c\<rparr>))"

definition cache_GetConfig :: "faults \<Rightarrow> hub \<Rightarrow> app_error + Config" where
  "cache_GetConfig f h =
     (if cache_read_fails f then Inl (Raw ''redis'')
      else case cache h of None \<Rightarrow> Inl (Raw ''redis: nil'') | Some c \<Rightarrow> Inr c)"

subsection \<open>internal/usecase/config/config_usecase.go\<close>

text \<open>
  \<open>GetLatestConfig\<close>. The lookup of the agent (when an agent id is given) is an input:
  \<open>None\<close> when it succeeds or is not made, otherwise the error it returns.
\<close>

definition GetLatestConfig :: "faults \<Rightarrow> app_error option \<Rightarrow> hub \<Rightarrow> (app_error + Config) \<times> hub" where
  "GetLatestConfig f agent_err h =
     (case agent_err of
        Some err \<Rightarrow>
          (if IsNotFound err then (Inl NotFound, h) else (Inl (Wrap err ''ERR_INTERNAL''), h))
      | None \<Rightarrow>
     (case cache_GetConfig f h of
        Inr chaced \<Rightarrow> (Inr chaced, h)
      | Inl _ \<Rightarrow>
     (case repo_GetLatestConfig f h of
        Inl err \<Rightarrow>
          (if IsNotFound err then (Inl NotFound, h) else (Inl (Wrap err ''ERR_INTERNAL''), h))
      | Inr config \<Rightarrow>
          (case cache_SetConfig f config h of
             Inl _ \<Rightarrow> (Inr config, h)
           | Inr h' \<Rightarrow> (Inr config, h')))))"

text \<open>
  \<open>Create\<close>. \<open>uuid\<close> is the value of \<open>uuid.New().String()\<close> and \<open>now\<close> the formatted time
  of the call.
\<close>

definition Create :: "faults \<Rightarrow> string \<Rightarrow> string \<Rightarrow> SaveCreate \<Rightarrow> hub \<Rightarrow> (app_error + Config) \<times> hub" where
  "Create f uuid now save h =
     (case (case repo_GetLatestConfig f h of
              Inl err \<Rightarrow> if IsNotFound err then Inr 1 else Inl err
            | Inr latestConfig \<Rightarrow> Inr (go_int (Version latestConfig + 1))) of
        Inl err \<Rightarrow> (Inl err, h)
      | Inr version \<Rightarrow>
          let newConfig = \<lparr>UUID = uuid, Version = version, ConfigURL = sc_ConfigUrl save,
                           PoolingInterval = sc_PoolingInterval save, CreatedAt = now\<rparr>
          in case repo_Create f newConfig h of
               Inl err \<Rightarrow> (Inl (Wrap err ''config''), h)
             | Inr h1 \<Rightarrow>
                 (case cache_SetConfig f newConfig h1 of
                    Inl err \<Rightarrow> (Inl (Wrap err ''config''), h1)
                  | Inr h2 \<Rightarrow> (Inr newConfig, h2)))"

definition Update :: "faults \<Rightarrow> SaveUpdate \<Rightarrow> hub \<Rightarrow> (app_error + unit) \<times> hub" where
  "Update f save h =
     (case repo_GetLatestConfig f h of
        Inl err \<Rightarrow>
          (if IsNotFound err then (Inl NotFound, h) else (Inl (Wrap err ''config''), h))
      | Inr config \<Rightarrow>
          let config1 = (if su_ConfigUrl save \<noteq> [] then config\<lparr>ConfigURL := su_ConfigUrl save\<rparr>
                         else config);
              config2 = (case su_PoolingInterval save of
                           Some i \<Rightarrow> if i \<ge> 0 then config1\<lparr>PoolingInterval := i\<rparr> else config1
                         | None \<Rightarrow> config1)
          in case repo_Update f config2 h of
               Inl err \<Rightarrow> (Inl (Wrap err ''config''), h)
             | Inr h1 \<Rightarrow>
                 (case cache_SetConfig f config2 h1 of
                    Inl err \<Rightarrow> (Inl (Wrap err ''config''), h1)
                  | Inr h2 \<Rightarrow> (Inr (), h2)))"

subsection \<open>internal/delivery/http/handler/config_handler.go\<close>

text \<open>
  \<open>ShouldBindJSON\<close> decodes the body into the struct and then checks the binding tags;
  a failed check is answered by \<open>response.BindingError\<close> with status 400 and the code
  \<open>ERR_VALIDATION\<close>, and the use case is not called. \<open>required\<close> refuses the zero value,
  \<open>min=30\<close> a number below 30, and \<open>omitempty\<close> skips the checks of an empty string and
  of a nil pointer.
\<close>

definition valid_SaveCreate :: "SaveCreate \<Rightarrow> bool" where
  "valid_SaveCreate save \<longleftrightarrow> sc_ConfigUrl save \<noteq> [] \<and> 30 \<le> sc_PoolingInterval save"

definition valid_SaveUpdate :: "SaveUpdate \<Rightarrow> bool" where
  "valid_SaveUpdate save \<longleftrightarrow>
     (case su_PoolingInterval save of None \<Rightarrow> True | Some i \<Rightarrow> 30 \<le> i)"

definition handler_Create :: "faults \<Rightarrow> string \<Rightarrow> string \<Rightarrow> SaveCreate \<Rightarrow> hub \<Rightarrow> (app_error + Config) \<times> hub" where
  "handler_Create f uuid now input h =
     (if \<not> valid_SaveCreate input then (Inl ValidationFailed, h)
      else Create f uuid now input h)"

definition handler_Update :: "faults \<Rightarrow> SaveUpdate \<Rightarrow> hub \<Rightarrow> (app_error + unit) \<times> hub" where
  "handler_Update f input h =
     (if \<not> valid_SaveUpdate input then (Inl ValidationFailed, h)
      else Update f input h)"

text \<open>
  A sequence of operations at the hub, and the store after it. \<open>stored_version\<close> is the
  version of the row that the store returns as the latest one (0 when the table is
  empty): what \<open>get_latest\<close> returns whenever it reads the store.
\<close>

datatype hub_op =
    OpCreate faults string string SaveCreate
  | OpUpdate faults SaveUpdate

fun hub_step :: "hub \<Rightarrow> hub_op \<Rightarrow> hub" where
  "hub_step h (OpCreate f uuid now save) = snd (handler_Create f uuid now save h)"
| "hub_step h (OpUpdate f save) = snd (handler_Update f save h)"

definition hub_run :: "hub \<Rightarrow> hub_op list \<Rightarrow> hub" where
  "hub_run h ops = foldl hub_step h ops"

definition stored_version :: "hub \<Rightarrow> int option" where
  "stored_version h = map_option Version (latest_row (rows h))"

definition next_version :: "hub \<Rightarrow> int" where
  "next_version h = (case stored_version h of None \<Rightarrow> 1 | Some v \<Rightarrow> v + 1)"

text \<open>
  What the database guarantees of the table: the primary key is unique and every value
  fits its column.
\<close>

definition hub_wf :: "hub \<Rightarrow> bool" where
  "hub_wf h \<longleftrightarrow> distinct (map UUID (rows h)) \<and> list_all fits_columns (rows h)"

text \<open>
  The cache is coherent when it is empty or holds the latest row of the store.
  \<open>op_faults\<close> are the failing calls of an operation.
\<close>

definition cache_coherent :: "hub \<Rightarrow> bool" where
  "cache_coherent h \<longleftrightarrow> (case cache h of None \<Rightarrow> True | Some c \<Rightarrow> latest_row (rows h) = Some c)"

fun op_faults :: "hub_op \<Rightarrow> faults" where
  "op_faults (OpCreate f uuid now save) = f"
| "op_faults (OpUpdate f save) = f"

text \<open>
  The version a caller of \<open>get_latest\<close> sees (no agent id given, as for an administrator),
  and Redis being unreachable for the length of an operation.
\<close>

definition get_latest_version :: "faults \<Rightarrow> hub \<Rightarrow> app_error + int" where
  "get_latest_version f h = map_sum id Version (fst (GetLatestConfig f None h))"

definition redis_down :: faults where
  "redis_down = \<lparr>db_read_fails = False, db_write_fails = False,
                 cache_read_fails = True, cache_write_fails = True\<rparr>"

section \<open>Relay: the polling loop of cmd/agents/main.go\<close>

text \<open>
  \<open>startPolling\<close> compares two \<open>*Config\<close> pointers, so the model keeps the objects in a
  store: \<open>heap\<close> lists every Config allocated so far and a pointer is an index into it.
  \<open>fetchConfigFromController\<close> returns the address of the \<open>Data\<close> field of a response
  struct it has just allocated: a new object at every successful call.

  The state of the loop: the parameter \<open>lastConfig\<close>, the global \<open>countFetch\<close>, the
  parameter \<open>interval\<close> (a \<open>time.Duration\<close>, in nanoseconds), the period of the ticker,
  and the calls of \<open>pushConfigToWorker\<close> made so far (the pointer pushed and whether the
  call returned nil), newest first.
\<close>

type_synonym ptr = nat

record relay =
  heap :: "Config list"
  lastConfig :: ptr
  countFetch :: int
  interval :: int
  ticker :: int
  pushes :: "(ptr \<times> bool) list"

text \<open>\<open>time.Duration(cfg.PoolingInterval) * time.Second\<close>, an int64 multiplication.\<close>

definition seconds :: "int \<Rightarrow> int" where
  "seconds n = go_int (n * 1000000000)"

text \<open>
  One iteration of the \<open>case <-ticker.C\<close> branch. \<open>fetched\<close> is what
  \<open>fetchConfigFromController\<close> returns (\<open>None\<close> for an error) and \<open>push_ok\<close> whether
  \<open>pushConfigToWorker\<close> returns nil if it is called. \<open>Ticker.Reset\<close> panics on a
  duration that is not positive (\<open>Inl\<close>).
\<close>

definition poll_tick :: "Config option \<Rightarrow> bool \<Rightarrow> relay \<Rightarrow> string + relay" where
  "poll_tick fetched push_ok s =
     (case fetched of
        None \<Rightarrow> Inr s
      | Some c \<Rightarrow>
          let newConfig = length (heap s);
              s1 = s\<lparr>heap := heap s @ [c], countFetch := go_int (countFetch s + 1)\<rparr>
          in if newConfig \<noteq> lastConfig s1 \<or> countFetch s1 > 3 then
               let s2 = s1\<lparr>countFetch := 0, pushes := (newConfig, push_ok) # pushes s1\<rparr>;
                   s3 = s2\<lparr>lastConfig := newConfig\<rparr>;
                   newInterval = seconds (PoolingInterval c)
               in if newInterval \<noteq> interval s3 then
                    (if newInterval \<le> 0 then Inl ''non-positive interval for Ticker.Reset''
                     else Inr (s3\<lparr>ticker := newInterval, interval := newInterval\<rparr>))
                  else Inr s3
             else Inr s1)"

text \<open>
  The state in which \<open>main\<close> starts the loop: the initial configuration is the only
  object, and the ticker runs at its interval.
\<close>

definition relay_start :: "Config \<Rightarrow> relay" where
  "relay_start c0 =
     \<lparr>heap = [c0], lastConfig = 0, countFetch = 0, interval = seconds (PoolingInterval c0),
      ticker = seconds (PoolingInterval c0), pushes = []\<rparr>"

text \<open>The configuration \<open>lastConfig\<close> points to.\<close>

definition applied :: "relay \<Rightarrow> Config option" where
  "applied s = (if lastConfig s < length (heap s) then Some (heap s ! lastConfig s) else None)"

text \<open>Whether the iteration called \<open>pushConfigToWorker\<close>.\<close>

definition pushed :: "relay \<Rightarrow> string + relay \<Rightarrow> bool" where
  "pushed s r = (case r of Inl _ \<Rightarrow> True | Inr s' \<Rightarrow> length (pushes s') = Suc (length (pushes s)))"

text \<open>
  What the claims say the loop does, for comparison: push exactly when the fetched version
  is greater than the version of the last applied configuration or the counter, after
  being incremented, has passed 3.
\<close>

definition spec_should_push :: "Config \<Rightarrow> relay \<Rightarrow> bool" where
  "spec_should_push c s \<longleftrightarrow>
     (case applied s of None \<Rightarrow> True | Some l \<Rightarrow> Version c > Version l) \<or> countFetch s + 1 > 3"

section \<open>Relay: internal/agent/scheduler/config_scheduler.go\<close>

text \<open>
  The second implementation of the poll cycle. The state: \<open>currentConfig\<close> (compared by
  version only, so the object itself is kept), the period of \<open>s.ticker\<close> (\<open>None\<close> for
  nil), whether a callback \<open>onConfigUpdate\<close> was given, and the configurations it was
  called with, newest first.
\<close>

record scheduler =
  currentConfig :: "Config option"
  sched_ticker :: "int option"
  onConfigUpdate :: bool
  updates :: "Config list"

text \<open>\<open>updateInterval\<close>: \<open>time.NewTicker\<close> panics on a duration that is not positive.\<close>

definition updateInterval :: "int \<Rightarrow> scheduler \<Rightarrow> string + scheduler" where
  "updateInterval newInterval s =
     (if seconds newInterval \<le> 0 then Inl ''non-positive interval for NewTicker''
      else Inr (s\<lparr>sched_ticker := Some (seconds newInterval)\<rparr>))"

definition fetchConfig :: "Config option \<Rightarrow> scheduler \<Rightarrow> string + scheduler" where
  "fetchConfig fetched s =
     (case fetched of
        None \<Rightarrow> Inr s
      | Some newConfig \<Rightarrow>
          if (case currentConfig s of None \<Rightarrow> True | Some cur \<Rightarrow> Version newConfig > Version cur)
          then
            (case (case currentConfig s of
                     None \<Rightarrow> Inr s
                   | Some cur \<Rightarrow>
                       if PoolingInterval cur \<noteq> PoolingInterval newConfig
                       then updateInterval (PoolingInterval newConfig) s
                       else Inr s) of
               Inl p \<Rightarrow> Inl p
             | Inr s1 \<Rightarrow>
                 let s2 = s1\<lparr>currentConfig := Some newConfig\<rparr>
                 in if onConfigUpdate s2 then Inr (s2\<lparr>updates := newConfig # updates s2\<rparr>)
                    else Inr s2)
          else Inr s)"

section \<open>Leaf: the config holder of the worker\<close>

text \<open>internal/domain/worker/entity.go\<close>

record WorkerConfig =
  w_ConfigURL :: string
  w_PoolingInterval :: int
  w_Version :: int
  w_UUID :: string

record UpdateConfigRequest =
  r_ConfigURL :: string           \<comment> \<open>binding:"required"\<close>
  r_PoolingInterval :: int        \<comment> \<open>binding:"required,min=30"\<close>
  r_Version :: int                \<comment> \<open>binding:"required"\<close>
  r_UUID :: string                \<comment> \<open>binding:"required"\<close>

text \<open>
  The two package variables of the worker use case: \<open>globalConfig\<close> (nil until the first
  push) and \<open>configMutex\<close> (whether it is held). A call that finds the mutex held waits
  for it; in a state between two requests nobody else holds it, so such a call never
  returns: \<open>Blocked\<close>.
\<close>

record leaf =
  globalConfig :: "WorkerConfig option"
  configMutex :: bool

datatype 'a outcome = Blocked | Returned 'a

definition leaf_start :: leaf where
  "leaf_start = \<lparr>globalConfig = None, configMutex = False\<rparr>"

text \<open>\<open>Worker.UpdateConfig\<close>: Lock, deferred Unlock, and the assignment between them.\<close>

definition UpdateConfig :: "UpdateConfigRequest \<Rightarrow> leaf \<Rightarrow> (app_error option \<times> leaf) outcome" where
  "UpdateConfig req l =
     (if configMutex l then Blocked
      else Returned (None,
             l\<lparr>globalConfig := Some \<lparr>w_ConfigURL = r_ConfigURL req,
                                     w_PoolingInterval = r_PoolingInterval req,
                                     w_Version = r_Version req,
                                     w_UUID = r_UUID req\<rparr>\<rparr>))"

text \<open>
  \<open>WorkerHandler.UpdateConfig\<close>: the binding tags of the request are checked first
  (\<open>required\<close> on a number refuses 0).
\<close>

definition valid_UpdateConfigRequest :: "UpdateConfigRequest \<Rightarrow> bool" where
  "valid_UpdateConfigRequest req \<longleftrightarrow>
     r_ConfigURL req \<noteq> [] \<and> 30 \<le> r_PoolingInterval req \<and> r_Version req \<noteq> 0 \<and> r_UUID req \<noteq> []"

definition handler_UpdateConfig :: "UpdateConfigRequest \<Rightarrow> leaf \<Rightarrow> (app_error option \<times> leaf) outcome" where
  "handler_UpdateConfig req l =
     (if \<not> valid_UpdateConfigRequest req then Returned (Some ValidationFailed, l)
      else UpdateConfig req l)"

text \<open>
  \<open>Worker.Hit\<close> returns \<open>(any, error)\<close>: the value is a string or what \<open>json.Unmarshal\<close>
  stored in \<open>result\<close>. The decoder is a parameter (\<open>None\<close> when it returns an error), and
  so is what the HTTP client does with the request.
\<close>

datatype 'j hit_value = RawText string | ParsedJSON 'j

datatype http_result =
    RequestError        \<comment> \<open>\<open>http.NewRequestWithContext\<close> fails\<close>
  | SendError           \<comment> \<open>\<open>httpClient.Do\<close> fails\<close>
  | ReadError           \<comment> \<open>\<open>io.ReadAll\<close> fails\<close>
  | Body string

definition Hit :: "(string \<Rightarrow> 'j option) \<Rightarrow> (string \<Rightarrow> http_result) \<Rightarrow> leaf
                    \<Rightarrow> ((app_error + 'j hit_value) \<times> leaf) outcome" where
  "Hit unmarshal http_get l =
     (if configMutex l then Blocked
      else case globalConfig l of
             None \<Rightarrow> Returned (Inl NotFound, l\<lparr>configMutex := True\<rparr>)
           | Some g \<Rightarrow>
               let configURL = w_ConfigURL g in
               if configURL = [] then Returned (Inl NotFound, l)
               else case http_get configURL of
                      RequestError \<Rightarrow> Returned (Inl (Wrap (Raw ''http'') ''ERR_INTERNAL''), l)
                    | SendError \<Rightarrow> Returned (Inl (Wrap (Raw ''http'') ''ERR_INTERNAL''), l)
                    | ReadError \<Rightarrow> Returned (Inl (Wrap (Raw ''io'') ''ERR_INTERNAL''), l)
                    | Body bodyBytes \<Rightarrow>
                        (case unmarshal bodyBytes of
                           None \<Rightarrow> Returned (Inr (RawText bodyBytes), l)
                         | Some result \<Rightarrow> Returned (Inr (RawText bodyBytes), l)))"

section \<open>Example data\<close>

text \<open>
  The configurations of the scenarios of the specification: version 1 with interval 30,
  and version 2 with interval 60.
\<close>

definition config_v1 :: Config where
  "config_v1 = \<lparr>UUID = ''u1'', Version = 1, ConfigURL = ''https://example.com/a'',
                PoolingInterval = 30, CreatedAt = ''t1''\<rparr>"

definition config_v2 :: Config where
  "config_v2 = \<lparr>UUID = ''u2'', Version = 2, ConfigURL = ''https://example.com/a'',
                PoolingInterval = 60, CreatedAt = ''t2''\<rparr>"

definition save_30 :: SaveCreate where
  "save_30 = \<lparr>sc_ConfigUrl = ''https://example.com/a'', sc_PoolingInterval = 30\<rparr>"

definition save_60 :: SaveCreate where
  "save_60 = \<lparr>sc_ConfigUrl = ''https://example.com/a'', sc_PoolingInterval = 60\<rparr>"

definition update_30 :: SaveUpdate where
  "update_30 = \<lparr>su_ConfigUrl = [], su_PoolingInterval = Some 30\<rparr>"

definition push_v1 :: UpdateConfigRequest where
  "push_v1 = \<lparr>r_ConfigURL = ''https://example.com/a'', r_PoolingInterval = 30,
              r_Version = 1, r_UUID = ''u1''\<rparr>"

definition push_v2 :: UpdateConfigRequest where
  "push_v2 = \<lparr>r_ConfigURL = ''https://example.com/a'', r_PoolingInterval = 60,
              r_Version = 2, r_UUID = ''u2''\<rparr>"

definition worker_v2 :: WorkerConfig where
  "worker_v2 = \<lparr>w_ConfigURL = ''https://example.com/a'', w_PoolingInterval = 60,
                w_Version = 2, w_UUID = ''u2''\<rparr>"

definition worker_v1 :: WorkerConfig where
  "worker_v1 = \<lparr>w_ConfigURL = ''https://example.com/a'', w_PoolingInterval = 30,
                w_Version = 1, w_UUID = ''u1''\<rparr>"

text \<open>A target that answers every request with the JSON document \<open>[1,2,3]\<close>.\<close>

definition json_target :: "string \<Rightarrow> http_result" where
  "json_target url = Body ''[1,2,3]''"

definition hub_empty :: hub where
  "hub_empty = \<lparr>rows = [], cache = None\<rparr>"

definition hub_v1 :: hub where
  "hub_v1 = \<lparr>rows = [config_v1], cache = None\<rparr>"

section \<open>Properties of the signed-identity protocol\<close>

lemma Split_no_sep: "sep \<notin> set xs \<Longrightarrow> Split xs sep = [xs]"
  by (induction xs) auto

lemma index_of_nth: "distinct xs \<Longrightarrow> n < length xs \<Longrightarrow> index_of (xs ! n) xs = Some n"
proof (induction xs arbitrary: n)
  case Nil
  then show ?case by simp
next
  case (Cons x xs)
  show ?case
  proof (cases n)
    case 0
    then show ?thesis by simp
  next
    case (Suc m)
    with Cons.prems have "m < length xs" "distinct xs" "xs ! m \<noteq> x"
      by auto
    with Cons.IH[of m] Suc show ?thesis by auto
  qed
qed

lemma length_encodeStd: "length encodeStd = 64"
  by (simp add: encodeStd_def)

lemma distinct_encodeStd: "distinct encodeStd"
  by (simp add: encodeStd_def)

lemma dec6_enc6: "n < 64 \<Longrightarrow> dec6 (enc6 n) = Some n"
  by (simp add: dec6_def enc6_def index_of_nth distinct_encodeStd length_encodeStd)

lemma enc6_in: "n < 64 \<Longrightarrow> enc6 n \<in> set encodeStd"
  by (simp add: enc6_def length_encodeStd)

lemma enc6_not_special:
  assumes "n < 64"
  shows "enc6 n \<noteq> CHR ''=''" "enc6 n \<noteq> CHR ''.''" "enc6 n \<noteq> CHR 0x0A" "enc6 n \<noteq> CHR 0x0D"
proof -
  have "CHR ''='' \<notin> set encodeStd" "CHR ''.'' \<notin> set encodeStd"
       "CHR 0x0A \<notin> set encodeStd" "CHR 0x0D \<notin> set encodeStd"
    by (simp_all add: encodeStd_def)
  with enc6_in[OF assms] show "enc6 n \<noteq> CHR ''=''" "enc6 n \<noteq> CHR ''.''" "enc6 n \<noteq> CHR 0x0A" "enc6 n \<noteq> CHR 0x0D"
    by auto
qed


lemma sextet_less: "sextet v k < 64"
  by (simp add: sextet_def)

lemma group24_less: "a < 256 \<Longrightarrow> b < 256 \<Longrightarrow> c < 256 \<Longrightarrow> group24 a b c < 16777216"
  by (simp add: group24_def)

lemma split_digit_12:
  fixes v :: nat
  shows "v div 4096 mod 64 * 4096 + v mod 4096 = v mod 262144"
  using mod_mult2_eq[of v 4096 64] by simp

lemma split_digit_6:
  fixes v :: nat
  shows "v div 64 mod 64 * 64 + v mod 64 = v mod 4096"
  using mod_mult2_eq[of v 64 64] by simp

lemma quad_digits:
  fixes v :: nat
  assumes "v < 16777216"
  shows "v div 262144 mod 64 * 262144 + v div 4096 mod 64 * 4096 + v div 64 mod 64 * 64 + v mod 64 = v"
proof -
  have "v div 262144 < 64" using assms by (simp add: div_less_iff_less_mult)
  then have a: "v div 262144 mod 64 = v div 262144" by simp
  have "v div 262144 mod 64 * 262144 + v div 4096 mod 64 * 4096 + v div 64 mod 64 * 64 + v mod 64
      = v div 262144 * 262144 + (v div 4096 mod 64 * 4096 + (v div 64 mod 64 * 64 + v mod 64))"
    by (simp add: a)
  also have "\<dots> = v div 262144 * 262144 + v mod 262144"
    by (simp only: split_digit_12 split_digit_6)
  also have "\<dots> = v" by simp
  finally show ?thesis .
qed

lemma quad24_sextets:
  "v < 16777216 \<Longrightarrow> quad24 (sextet v 18) (sextet v 12) (sextet v 6) (sextet v 0) = v"
  using quad_digits[of v] by (simp add: quad24_def sextet_def)

lemma sextet_zero:
  "sextet (group24 a 0 0) 6 = 0" "sextet (group24 a 0 0) 0 = 0" "sextet (group24 a b 0) 0 = 0"
proof -
  have "group24 a 0 0 = 64 * (1024 * a)" "group24 a b 0 = 64 * (1024 * a + 4 * b)"
    by (simp_all add: group24_def)
  then show "sextet (group24 a 0 0) 0 = 0" "sextet (group24 a b 0) 0 = 0"
    by (simp_all add: sextet_def)
  have "group24 a 0 0 div 64 = 64 * (16 * a)"
    by (simp add: group24_def)
  then show "sextet (group24 a 0 0) 6 = 0"
    by (simp add: sextet_def)
qed

lemma quad24_sextets_1:
  "a < 256 \<Longrightarrow> quad24 (sextet (group24 a 0 0) 18) (sextet (group24 a 0 0) 12) 0 0 = group24 a 0 0"
  using quad24_sextets[of "group24 a 0 0"] group24_less[of a 0 0] by (simp add: sextet_zero)

lemma quad24_sextets_2:
  "a < 256 \<Longrightarrow> b < 256 \<Longrightarrow>
   quad24 (sextet (group24 a b 0) 18) (sextet (group24 a b 0) 12) (sextet (group24 a b 0) 6) 0
     = group24 a b 0"
  using quad24_sextets[of "group24 a b 0"] group24_less[of a b 0] by (simp add: sextet_zero)

lemma octet_group24_16:
  assumes "b < 256" "c < 256"
  shows "octet (group24 (of_char x) b c) 16 = x"
proof -
  have "b * 256 + c < 65536" using assms by simp
  then have "(of_char x * 65536 + (b * 256 + c)) div 65536 = (of_char x :: nat)"
    by simp
  then show ?thesis
    by (simp add: octet_def group24_def add.assoc)
qed

lemma octet_group24_8:
  assumes "c < 256"
  shows "octet (group24 a (of_char y) c) 8 = y"
proof -
  have "(a * 65536 + of_char y * 256 + c) div 256 = a * 256 + of_char y"
    using assms by simp
  moreover have "char_of (a * 256 + of_char y :: nat) = char_of ((a * 256 + of_char y :: nat) mod 256)"
    by (simp only: char_of_mod_256)
  ultimately show ?thesis
    by (simp add: octet_def group24_def)
qed

lemma octet_group24_0: "octet (group24 a b (of_char z)) 0 = z"
proof -
  have "char_of (a * 65536 + b * 256 + of_char z :: nat)
      = char_of ((a * 65536 + b * 256 + of_char z :: nat) mod 256)"
    by (simp only: char_of_mod_256)
  also have "(a * 65536 + b * 256 + of_char z :: nat) mod 256 = of_char z"
  proof -
    have "a * 65536 + b * 256 + of_char z = (a * 256 + b) * 256 + (of_char z :: nat)" by simp
    then show ?thesis by (metis mod_mult_self3 nat_of_char_less_256 mod_less)
  qed
  finally show ?thesis
    by (simp add: octet_def group24_def)
qed

lemmas octet_group24 = octet_group24_16 octet_group24_8 octet_group24_0

lemma of_char_less: "(of_char c :: nat) < 256"
  by simp

lemma decode_encode: "decode_quanta (EncodeToString bs) = Some bs"
proof (induction bs rule: EncodeToString.induct)
  case 1
  then show ?case by simp
next
  case (2 a)
  then show ?case
    by (simp add: dec6_enc6 sextet_less enc6_not_special quad24_sextets_1 octet_group24)
next
  case (3 a b)
  then show ?case
    by (simp add: dec6_enc6 sextet_less enc6_not_special quad24_sextets_2 octet_group24)
next
  case (4 a b c rest)
  then show ?case
    by (simp add: dec6_enc6 sextet_less enc6_not_special quad24_sextets group24_less octet_group24)
qed

lemma EncodeToString_chars:
  "x \<in> set (EncodeToString bs) \<Longrightarrow> x \<noteq> CHR ''.'' \<and> x \<noteq> CHR 0x0A \<and> x \<noteq> CHR 0x0D"
  by (induction bs rule: EncodeToString.induct) (auto simp: sextet_less enc6_not_special)

lemma DecodeString_EncodeToString: "DecodeString (EncodeToString bs) = Some bs"
proof -
  have "filter (\<lambda>c. c \<noteq> CHR 0x0A \<and> c \<noteq> CHR 0x0D) (EncodeToString bs) = EncodeToString bs"
    by (rule filter_True) (use EncodeToString_chars in blast)
  then show ?thesis by (simp add: DecodeString_def decode_encode)
qed

lemma Split_two:
  "sep \<notin> set xs \<Longrightarrow> sep \<notin> set ys \<Longrightarrow> Split (xs @ sep # ys) sep = [xs, ys]"
  by (induction xs) (auto simp: Split_no_sep)


lemma Verify_token:
  "Verify (EncodeToString t @ CHR ''.'' # EncodeToString sg) k =
     Inr (if sg = hmac_sha256 k t then (True, t) else (False, []))"
proof -
  have "CHR ''.'' \<notin> set (EncodeToString t)" "CHR ''.'' \<notin> set (EncodeToString sg)"
    using EncodeToString_chars by blast+
  then have "Split (EncodeToString t @ CHR ''.'' # EncodeToString sg) (CHR ''.'')
               = [EncodeToString t, EncodeToString sg]"
    using Split_two[of "CHR ''.''" "EncodeToString t" "EncodeToString sg"] by simp
  then show ?thesis
    by (simp add: Verify_def DecodeString_EncodeToString)
qed

lemma issue_then_verify_eq:
  assumes "v \<noteq> []" "s \<noteq> []"
  shows "issue_then_verify v s s' =
           Inr (if hmac_sha256 s v = hmac_sha256 s' v then (True, v) else (False, []))"
  using assms by (simp add: issue_then_verify_def Generate_def Verify_token del: EncodeToString.simps)

lemma hmac_key_zero:
  assumes "length k < 64"
  shows "hmac_key (k @ [CHR 0x00]) = hmac_key k"
proof -
  have "replicate (64 - length k) (CHR 0x00) = CHR 0x00 # replicate (63 - length k) (CHR 0x00)"
    using assms by (cases "64 - length k") (simp_all add: Suc_diff_le)
  with assms show ?thesis
    by (simp add: hmac_key_def)
qed

lemma hmac_sha256_zero:
  "length k < 64 \<Longrightarrow> hmac_sha256 (k @ [CHR 0x00]) m = hmac_sha256 k m"
  by (simp add: hmac_sha256_def hmac_key_zero)

text \<open>
  Claim C4, as the code has it. \<open>Generate\<close> refuses an empty identity and an empty
  secret. For a non-empty identity \<open>v\<close> and a non-empty secret \<open>s\<close>, the token issued
  for \<open>v\<close> under \<open>s\<close> verifies under \<open>s\<close> as valid with the identity \<open>v\<close>; under any
  secret \<open>s'\<close> it verifies without error, and it is valid exactly when the HMAC of \<open>v\<close>
  under \<open>s'\<close> is the HMAC of \<open>v\<close> under \<open>s\<close>. Two different secrets can have the same
  HMAC: the key is filled with zero bytes up to the block size (\<open>hmac_sha256_zero\<close>).
\<close>

theorem issue_verify_roundtrip:
  assumes "v \<noteq> []" "s \<noteq> []"
  shows "issue_then_verify v s s = Inr (True, v) \<and>
         issue_then_verify v s s' =
           (if hmac_sha256 s' v = hmac_sha256 s v then Inr (True, v) else Inr (False, []))"
  using assms by (auto simp add: issue_then_verify_eq)

theorem issue_verify_roundtrip_witness:
  "issue_then_verify ''agent-1'' ''k'' ''k'' = Inr (True, ''agent-1'')"
  using issue_verify_roundtrip[of "''agent-1''" "''k''" "''k''"] by simp

text \<open>
  The claim as stated fails at the empty secret, where no token is issued, and at the
  secrets \<open>k\<close> and \<open>k\<close> followed by a zero byte, which are different and verify each
  other's tokens.
\<close>

theorem issue_verify_counterexample:
  "issue_then_verify ''agent-1'' [] [] = Inl EmptyInput \<and>
   ''k'' @ [CHR 0x00] \<noteq> ''k'' \<and>
   issue_then_verify ''agent-1'' ''k'' (''k'' @ [CHR 0x00]) = Inr (True, ''agent-1'')"
proof -
  have "issue_then_verify ''agent-1'' [] [] = Inl EmptyInput"
    by (simp add: issue_then_verify_def Generate_def)
  moreover have "hmac_sha256 (''k'' @ [CHR 0x00]) ''agent-1'' = hmac_sha256 ''k'' ''agent-1''"
    by (rule hmac_sha256_zero) simp
  then have "issue_then_verify ''agent-1'' ''k'' (''k'' @ [CHR 0x00]) = Inr (True, ''agent-1'')"
    by (simp add: issue_then_verify_eq del: append.simps)
  ultimately show ?thesis by simp
qed

lemma length_sha256_round: "length st = 8 \<Longrightarrow> length (sha256_round st kw) = 8"
proof -
  assume "length st = 8"
  then obtain a b c d e f g h where "st = [a, b, c, d, e, f, g, h]"
    by (auto simp: eval_nat_numeral length_Suc_conv)
  then show ?thesis
    by (cases kw) (simp add: Let_def)
qed

lemma length_foldl_round: "length st = 8 \<Longrightarrow> length (foldl sha256_round st kws) = 8"
  by (induction kws arbitrary: st) (simp_all add: length_sha256_round)

lemma length_sha256_block: "length hs = 8 \<Longrightarrow> length (sha256_block hs blk) = 8"
  by (simp add: sha256_block_def Let_def length_foldl_round)

lemma length_foldl_block: "length hs = 8 \<Longrightarrow> length (foldl sha256_block hs blks) = 8"
  by (induction blks arbitrary: hs) (simp_all add: length_sha256_block)

lemma length_concat_be32: "length (concat (map be32_bytes ws)) = 4 * length ws"
  by (induction ws) (simp_all add: be32_bytes_def)

lemma length_sha256: "length (sha256 m) = 32"
  by (simp add: sha256_def Let_def length_concat_be32 length_foldl_block sha256_init_def)

lemma length_hmac_sha256: "length (hmac_sha256 k m) = 32"
  by (simp add: hmac_sha256_def length_sha256)

lemma char_of_65: "char_of (65 :: nat) = CHR ''A''"
proof -
  have "(of_char (CHR ''A'') :: nat) = 65" by simp
  then show ?thesis by (metis char_of_char)
qed

text \<open>
  Claim C8. A token that splits at the delimiter into exactly two parts, both of them valid
  base64, is verified without error: the result is valid with the decoded identity when
  the decoded signature is the HMAC recomputed under the given secret, and \<open>(false, "")\<close>
  when it is not. Every other token gives an error.
\<close>

theorem Verify_outcomes:
  "(well_formed_token t \<longrightarrow>
      (\<exists>txt sg. DecodeString (Split t (CHR ''.'') ! 0) = Some txt \<and>
                 DecodeString (Split t (CHR ''.'') ! 1) = Some sg \<and>
                 Verify t s = Inr (if sg = hmac_sha256 s txt then (True, txt) else (False, [])))) \<and>
   (\<not> well_formed_token t \<longrightarrow> (\<exists>e. Verify t s = Inl e))"
proof (cases "length (Split t (CHR ''.'')) = 2")
  case True
  then obtain p0 p1 where sp: "Split t (CHR ''.'') = [p0, p1]"
    by (cases "Split t (CHR ''.'')" rule: list.exhaust; simp)
       (metis Suc_length_conv length_0_conv)
  show ?thesis
    by (cases "DecodeString p0"; cases "DecodeString p1")
       (simp_all add: well_formed_token_def Verify_def sp)
next
  case False
  then have "\<not> well_formed_token t"
    by (auto simp: well_formed_token_def split: list.splits)
  with False show ?thesis
    by (simp add: Verify_def)
qed

theorem Verify_outcomes_witness:
  "well_formed_token ''QQ==.QQ=='' \<and> Verify ''QQ==.QQ=='' ''k'' = Inr (False, []) \<and>
   \<not> well_formed_token ''QQ=='' \<and> (\<exists>e. Verify ''QQ=='' ''k'' = Inl e)"
proof -
  have wf: "well_formed_token ''QQ==.QQ==''"
    by (simp add: well_formed_token_def DecodeString_def dec6_def encodeStd_def)
  have parts: "Split ''QQ==.QQ=='' (CHR ''.'') = [''QQ=='', ''QQ=='']"
    by simp
  have dec: "DecodeString ''QQ=='' = Some ''A''"
    by (simp add: DecodeString_def dec6_def encodeStd_def octet_def quad24_def char_of_65)
  have "length ''A'' \<noteq> length (hmac_sha256 ''k'' ''A'')"
    by (simp add: length_hmac_sha256)
  then have ne: "''A'' \<noteq> hmac_sha256 ''k'' ''A''"
    by metis
  have nwf: "\<not> well_formed_token ''QQ==''"
    by (simp add: well_formed_token_def)
  from Verify_outcomes[of "''QQ==.QQ==''" "''k''"] wf parts dec ne
  have "Verify ''QQ==.QQ=='' ''k'' = Inr (False, [])"
    by simp
  moreover from Verify_outcomes[of "''QQ==''" "''k''"] nwf
  have "\<exists>e. Verify ''QQ=='' ''k'' = Inl e"
    by blast
  ultimately show ?thesis using wf nwf by blast
qed

section \<open>Properties of the hub\<close>

lemma latest_row_None [simp]: "latest_row rs = None \<longleftrightarrow> rs = []"
  by (induction rs) (auto split: option.splits)

lemma latest_row_mem: "latest_row rs = Some m \<Longrightarrow> m \<in> set rs"
  by (induction rs arbitrary: m) (auto split: option.splits if_splits)

lemma latest_row_max: "latest_row rs = Some m \<Longrightarrow> r \<in> set rs \<Longrightarrow> Version r \<le> Version m"
  by (induction rs arbitrary: m) (auto split: option.splits if_splits)

lemma latest_row_append_greater:
  "(\<And>r. r \<in> set rs \<Longrightarrow> Version r < Version c) \<Longrightarrow> latest_row (rs @ [c]) = Some c"
  by (induction rs) (auto split: option.splits)

lemma latest_row_append_version:
  "map_option Version (latest_row (rs @ [c])) =
     (case latest_row rs of None \<Rightarrow> Some (Version c)
      | Some m \<Rightarrow> Some (max (Version m) (Version c)))"
  by (induction rs) (auto split: option.splits)

lemma latest_row_cong_versions:
  "map Version rs = map Version rs' \<Longrightarrow>
   map_option Version (latest_row rs) = map_option Version (latest_row rs')"
proof (induction rs arbitrary: rs')
  case Nil
  then show ?case by simp
next
  case (Cons r rs)
  then obtain r' rs'' where rs': "rs' = r' # rs''" "Version r = Version r'" "map Version rs = map Version rs''"
    by (cases rs') auto
  from Cons.IH[OF rs'(3)] rs'(1,2) show ?case
    by (auto split: option.splits)
qed

lemma go_int_id: "- 9223372036854775808 \<le> n \<Longrightarrow> n < 9223372036854775808 \<Longrightarrow> go_int n = n"
  by (simp add: go_int_def)

lemma go_int_succ_int4: "int4 v \<Longrightarrow> go_int (v + 1) = v + 1"
  by (simp add: go_int_def int4_def)


lemma Create_result:
  obtains (unchanged) e where "Create f u n save h = (Inl e, h)"
  | (stored) e c where
      "Create f u n save h = (Inl e, h\<lparr>rows := rows h @ [c]\<rparr>)"
      "cache_write_fails f" "\<not> db_read_fails f" "\<not> db_write_fails f"
      "fits_columns c" "UUID c \<notin> set (map UUID (rows h))"
      "c = \<lparr>UUID = u, Version = (case latest_row (rows h) of None \<Rightarrow> 1
                                     | Some m \<Rightarrow> go_int (Version m + 1)),
             ConfigURL = sc_ConfigUrl save, PoolingInterval = sc_PoolingInterval save,
             CreatedAt = n\<rparr>"
  | (cached) c where
      "Create f u n save h = (Inr c, h\<lparr>rows := rows h @ [c], cache := Some c\<rparr>)"
      "\<not> cache_write_fails f" "\<not> db_read_fails f" "\<not> db_write_fails f"
      "fits_columns c" "UUID c \<notin> set (map UUID (rows h))"
      "c = \<lparr>UUID = u, Version = (case latest_row (rows h) of None \<Rightarrow> 1
                                     | Some m \<Rightarrow> go_int (Version m + 1)),
             ConfigURL = sc_ConfigUrl save, PoolingInterval = sc_PoolingInterval save,
             CreatedAt = n\<rparr>"
proof (cases "db_read_fails f")
  case True
  then have "Create f u n save h = (Inl (Database (Raw ''db'')), h)"
    by (simp add: Create_def repo_GetLatestConfig_def Database_def)
  then show ?thesis by (rule unchanged)
next
  case rd: False
  define c where "c = \<lparr>UUID = u, Version = (case latest_row (rows h) of None \<Rightarrow> 1
                                     | Some m \<Rightarrow> go_int (Version m + 1)),
             ConfigURL = sc_ConfigUrl save, PoolingInterval = sc_PoolingInterval save,
             CreatedAt = n\<rparr>"
  have step: "Create f u n save h =
     (case repo_Create f c h of
        Inl err \<Rightarrow> (Inl (Wrap err ''config''), h)
      | Inr h1 \<Rightarrow> (case cache_SetConfig f c h1 of
                     Inl err \<Rightarrow> (Inl (Wrap err ''config''), h1)
                   | Inr h2 \<Rightarrow> (Inr c, h2)))"
    using rd unfolding c_def by (cases "latest_row (rows h)")
      (simp_all add: Create_def repo_GetLatestConfig_def NotFound_def Let_def
         cong del: sum.case_cong_weak)
  show ?thesis
  proof (cases "db_write_fails f \<or> \<not> fits_columns c \<or> UUID c \<in> set (map UUID (rows h))")
    case True
    then have "Create f u n save h = (Inl (Wrap (Raw ''db'') ''config''), h)"
      unfolding step by (simp add: repo_Create_def)
    then show ?thesis by (rule unchanged)
  next
    case False
    then have rc: "repo_Create f c h = Inr (h\<lparr>rows := rows h @ [c]\<rparr>)"
      by (simp add: repo_Create_def)
    show ?thesis
    proof (cases "cache_write_fails f")
      case True
      then have "Create f u n save h = (Inl (Wrap (Raw ''redis'') ''config''), h\<lparr>rows := rows h @ [c]\<rparr>)"
        unfolding step rc by (simp add: cache_SetConfig_def)
      then show ?thesis using True rd False c_def by (intro stored) auto
    next
      case False
      then have "Create f u n save h = (Inr c, h\<lparr>rows := rows h @ [c], cache := Some c\<rparr>)"
        unfolding step rc by (simp add: cache_SetConfig_def)
      then show ?thesis using False rd \<open>\<not> (db_write_fails f \<or> \<not> fits_columns c \<or> UUID c \<in> set (map UUID (rows h)))\<close> c_def
        by (intro cached) auto
    qed
  qed
qed

lemma distinct_UUID_eq:
  "distinct (map UUID rs) \<Longrightarrow> m \<in> set rs \<Longrightarrow> r \<in> set rs \<Longrightarrow> UUID r = UUID m \<Longrightarrow> r = m"
  by (meson distinct_map inj_onD)

lemma Update_result:
  obtains (unchanged) e where "Update f save h = (Inl e, h)"
  | (saved) r m c where
      "Update f save h = (r, h\<lparr>rows := map (\<lambda>x. if UUID x = UUID c then c else x) (rows h),
                                cache := (if cache_write_fails f then cache h else Some c)\<rparr>)"
      "r = (if cache_write_fails f then Inl (Wrap (Raw ''redis'') ''config'') else Inr ())"
      "latest_row (rows h) = Some m" "UUID c = UUID m" "Version c = Version m"
      "UUID m \<noteq> []" "fits_columns c" "\<not> db_read_fails f" "\<not> db_write_fails f"
      "ConfigURL c = (if su_ConfigUrl save \<noteq> [] then su_ConfigUrl save else ConfigURL m)"
      "PoolingInterval c = (case su_PoolingInterval save of
                              Some i \<Rightarrow> if i \<ge> 0 then i else PoolingInterval m
                            | None \<Rightarrow> PoolingInterval m)"
proof (cases "repo_GetLatestConfig f h")
  case (Inl err)
  then have "\<exists>e. Update f save h = (Inl e, h)"
    by (simp add: Update_def)
  then show ?thesis using unchanged by blast
next
  case (Inr m)
  then have rd: "\<not> db_read_fails f" and m: "latest_row (rows h) = Some m"
    by (auto simp: repo_GetLatestConfig_def split: if_splits option.splits)
  define c where "c = (let config1 = (if su_ConfigUrl save \<noteq> [] then m\<lparr>ConfigURL := su_ConfigUrl save\<rparr> else m)
      in (case su_PoolingInterval save of
                           Some i \<Rightarrow> if i \<ge> 0 then config1\<lparr>PoolingInterval := i\<rparr> else config1
                         | None \<Rightarrow> config1))"
  have c: "UUID c = UUID m" "Version c = Version m"
    "ConfigURL c = (if su_ConfigUrl save \<noteq> [] then su_ConfigUrl save else ConfigURL m)"
    "PoolingInterval c = (case su_PoolingInterval save of
                              Some i \<Rightarrow> if i \<ge> 0 then i else PoolingInterval m
                            | None \<Rightarrow> PoolingInterval m)"
    by (auto simp: c_def Let_def split: option.splits)
  have step: "Update f save h =
     (case repo_Update f c h of
        Inl err \<Rightarrow> (Inl (Wrap err ''config''), h)
      | Inr h1 \<Rightarrow> (case cache_SetConfig f c h1 of
                     Inl err \<Rightarrow> (Inl (Wrap err ''config''), h1)
                   | Inr h2 \<Rightarrow> (Inr (), h2)))"
    using Inr unfolding c_def by (simp add: Update_def Let_def cong del: sum.case_cong_weak)
  have mem: "UUID c \<in> set (map UUID (rows h))"
    using latest_row_mem[OF m] c(1) by force
  show ?thesis
  proof (cases "db_write_fails f \<or> \<not> fits_columns c \<or> UUID c = []")
    case True
    then have "Update f save h = (Inl (Wrap (Raw ''db'') ''config''), h)"
      unfolding step using mem by (auto simp add: repo_Update_def)
    then show ?thesis by (rule unchanged)
  next
    case False
    then have ru: "repo_Update f c h = Inr (h\<lparr>rows := map (\<lambda>x. if UUID x = UUID c then c else x) (rows h)\<rparr>)"
      using mem by (simp add: repo_Update_def)
    have "Update f save h = ((if cache_write_fails f then Inl (Wrap (Raw ''redis'') ''config'') else Inr ()),
         h\<lparr>rows := map (\<lambda>x. if UUID x = UUID c then c else x) (rows h),
                                cache := (if cache_write_fails f then cache h else Some c)\<rparr>)"
      unfolding step ru by (simp add: cache_SetConfig_def)
    then show ?thesis
      using False m c rd by (intro saved[of _ c m]) auto
  qed
qed


lemma hub_wf_latest_int4:
  "hub_wf h \<Longrightarrow> latest_row (rows h) = Some m \<Longrightarrow> int4 (Version m)"
  using latest_row_mem[of "rows h" m]
  by (auto simp: hub_wf_def list_all_iff fits_columns_def)

lemma created_version:
  assumes "hub_wf h"
  shows "(case latest_row (rows h) of None \<Rightarrow> 1 | Some m \<Rightarrow> go_int (Version m + 1)) = next_version h"
  using hub_wf_latest_int4[OF assms]
  by (auto simp: next_version_def stored_version_def go_int_succ_int4 split: option.splits)

lemma stored_version_append:
  assumes "Version c = next_version h"
  shows "stored_version (h\<lparr>rows := rows h @ [c]\<rparr>) = Some (next_version h)"
    and "stored_version (h\<lparr>rows := rows h @ [c], cache := x\<rparr>) = Some (next_version h)"
  using assms
  by (auto simp: stored_version_def next_version_def latest_row_append_version split: option.splits)

lemma stored_version_less_next: "stored_version h < Some (next_version h)"
  by (auto simp: next_version_def split: option.splits)

lemma hub_wf_append:
  "hub_wf h \<Longrightarrow> fits_columns c \<Longrightarrow> UUID c \<notin> set (map UUID (rows h)) \<Longrightarrow>
   hub_wf (h\<lparr>rows := rows h @ [c]\<rparr>) \<and> hub_wf (h\<lparr>rows := rows h @ [c], cache := x\<rparr>)"
  by (auto simp: hub_wf_def)

lemma replace_row:
  assumes "distinct (map UUID rs)" "m \<in> set rs" "UUID c = UUID m" "Version c = Version m"
  shows "map Version (map (\<lambda>x. if UUID x = UUID c then c else x) rs) = map Version rs"
    and "map UUID (map (\<lambda>x. if UUID x = UUID c then c else x) rs) = map UUID rs"
proof -
  have "\<And>x. x \<in> set rs \<Longrightarrow> UUID x = UUID c \<Longrightarrow> x = m"
    using assms distinct_UUID_eq[of rs m] by auto
  then show "map Version (map (\<lambda>x. if UUID x = UUID c then c else x) rs) = map Version rs"
    using assms(4) by (auto simp: map_eq_conv)
  show "map UUID (map (\<lambda>x. if UUID x = UUID c then c else x) rs) = map UUID rs"
    by (auto simp: map_eq_conv)
qed

lemma Create_wf: "hub_wf h \<Longrightarrow> hub_wf (snd (Create f u n save h))"
  by (cases f u n save h rule: Create_result) (auto simp: hub_wf_append)

lemma Create_stored_version:
  assumes "hub_wf h"
  shows "stored_version (snd (Create f u n save h)) = stored_version h \<or>
         stored_version (snd (Create f u n save h)) = Some (next_version h)"
proof (cases f u n save h rule: Create_result)
  case (unchanged e)
  then show ?thesis by simp
next
  case (stored e c)
  then have "Version c = next_version h"
    using created_version[OF assms] by simp
  then show ?thesis using stored(1) by (simp add: stored_version_append)
next
  case (cached c)
  then have "Version c = next_version h"
    using created_version[OF assms] by simp
  then show ?thesis using cached(1) by (simp add: stored_version_append)
qed

lemma Create_ok_version:
  assumes "hub_wf h" "Create f u n save h = (Inr c, h')"
  shows "Version c = next_version h \<and> rows h' = rows h @ [c] \<and> cache h' = Some c \<and>
         stored_version h' = Some (next_version h)"
proof (cases f u n save h rule: Create_result)
  case (unchanged e)
  with assms(2) show ?thesis by simp
next
  case (stored e c)
  with assms(2) show ?thesis by simp
next
  case (cached c')
  with assms(2) have eq: "c' = c" "h' = h\<lparr>rows := rows h @ [c], cache := Some c\<rparr>" by auto
  have "Version c' = next_version h"
    using cached created_version[OF assms(1)] by simp
  then show ?thesis using eq by (simp add: stored_version_append)
qed

lemma Update_rows:
  assumes "hub_wf h"
  shows "map Version (rows (snd (Update f save h))) = map Version (rows h) \<and>
         map UUID (rows (snd (Update f save h))) = map UUID (rows h) \<and>
         hub_wf (snd (Update f save h))"
proof (cases f save h rule: Update_result)
  case (unchanged e)
  then show ?thesis using assms by simp
next
  case (saved r m c)
  have d: "distinct (map UUID (rows h))" using assms by (simp add: hub_wf_def)
  have mem: "m \<in> set (rows h)" using saved(3) by (rule latest_row_mem)
  note rr = replace_row[OF d mem saved(4) saved(5)]
  define rs' where "rs' = map (\<lambda>x. if UUID x = UUID c then c else x) (rows h)"
  have fits: "list_all fits_columns rs'"
    using assms saved(7) by (auto simp: hub_wf_def list_all_iff rs'_def)
  have v: "map Version rs' = map Version (rows h)" and u: "map UUID rs' = map UUID (rows h)"
    using rr by (simp_all only: rs'_def)
  have rows': "rows (snd (Update f save h)) = rs'"
    using saved(1) by (simp add: rs'_def)
  show ?thesis
    unfolding rows' hub_wf_def using fits v u d by (simp only: simp_thms)
qed

lemma Update_stored_version:
  "hub_wf h \<Longrightarrow> stored_version (snd (Update f save h)) = stored_version h"
  using Update_rows[of h f save]
    latest_row_cong_versions[of "rows (snd (Update f save h))" "rows h"]
  by (simp add: stored_version_def)

lemma handler_Create_cases:
  "handler_Create f u n save h = (Inl ValidationFailed, h) \<or>
   handler_Create f u n save h = Create f u n save h"
  by (simp add: handler_Create_def)

lemma handler_Update_cases:
  "handler_Update f save h = (Inl ValidationFailed, h) \<or>
   handler_Update f save h = Update f save h"
  by (simp add: handler_Update_def)

lemma hub_step_wf: "hub_wf h \<Longrightarrow> hub_wf (hub_step h op)"
proof (cases op)
  case (OpCreate f u n save)
  then show "hub_wf h \<Longrightarrow> hub_wf (hub_step h op)"
    using handler_Create_cases[of f u n save h] Create_wf[of h f u n save] by auto
next
  case (OpUpdate f save)
  then show "hub_wf h \<Longrightarrow> hub_wf (hub_step h op)"
    using handler_Update_cases[of f save h] Update_rows[of h f save] by auto
qed

lemma hub_step_version:
  assumes "hub_wf h"
  shows "stored_version (hub_step h op) = stored_version h \<or>
         ((\<exists>f u n save. op = OpCreate f u n save) \<and>
          stored_version (hub_step h op) = Some (next_version h))"
proof (cases op)
  case (OpCreate f u n save)
  then show ?thesis
    using handler_Create_cases[of f u n save h] Create_stored_version[OF assms, of f u n save]
    by auto
next
  case (OpUpdate f save)
  then show ?thesis
    using handler_Update_cases[of f save h] Update_stored_version[OF assms, of f save]
    by auto
qed

lemma hub_step_mono: "hub_wf h \<Longrightarrow> stored_version h \<le> stored_version (hub_step h op)"
  using hub_step_version[of h op] stored_version_less_next[of h]
  by (auto simp: less_le)

lemma hub_run_wf: "hub_wf h \<Longrightarrow> hub_wf (hub_run h ops)"
  unfolding hub_run_def by (induction ops arbitrary: h) (simp_all add: hub_step_wf)

lemma hub_run_mono: "hub_wf h \<Longrightarrow> stored_version h \<le> stored_version (hub_run h ops)"
  unfolding hub_run_def
proof (induction ops arbitrary: h)
  case Nil
  then show ?case by simp
next
  case (Cons op ops)
  have "stored_version h \<le> stored_version (hub_step h op)"
    using Cons.prems by (rule hub_step_mono)
  also have "\<dots> \<le> stored_version (foldl hub_step (hub_step h op) ops)"
    using Cons.prems by (intro Cons.IH hub_step_wf)
  finally show ?case by simp
qed

lemma hub_run_prefix_mono:
  assumes "hub_wf h" "i \<le> j"
  shows "stored_version (hub_run h (take i ops)) \<le> stored_version (hub_run h (take j ops))"
proof -
  have "take j ops = take i ops @ drop i (take j ops)"
    using assms(2) by (metis append_take_drop_id min.absorb1 take_take)
  then have "hub_run h (take j ops) = hub_run (hub_run h (take i ops)) (drop i (take j ops))"
    by (metis foldl_append hub_run_def)
  then show ?thesis
    using hub_run_mono[OF hub_run_wf[OF assms(1)]] by simp
qed

lemma read_through:
  assumes "cache_read_fails f \<or> cache h = None" "fst (GetLatestConfig f None h) = Inr c"
  shows "latest_row (rows h) = Some c"
proof -
  have "\<exists>e. cache_GetConfig f h = Inl e"
    using assms(1) by (auto simp: cache_GetConfig_def)
  then show ?thesis
    using assms(2)
    by (auto simp: GetLatestConfig_def repo_GetLatestConfig_def cache_SetConfig_def
        split: if_splits option.splits)
qed

lemma map_replace_id:
  "UUID c \<notin> set (map UUID rs) \<Longrightarrow> map (\<lambda>x. if UUID x = UUID c then c else x) rs = rs"
  by (induction rs) auto

lemma latest_row_replace:
  assumes "distinct (map UUID rs)" "latest_row rs = Some m" "UUID c = UUID m" "Version c = Version m"
  shows "latest_row (map (\<lambda>x. if UUID x = UUID c then c else x) rs) = Some c"
  using assms
proof (induction rs arbitrary: m)
  case Nil
  then show ?case by simp
next
  case (Cons r rs)
  show ?case
  proof (cases "latest_row rs")
    case None
    then have "rs = []" by simp
    with Cons.prems show ?thesis by simp
  next
    case (Some m')
    show ?thesis
    proof (cases "Version r < Version m'")
      case True
      with Some Cons.prems have m: "m = m'" by simp
      have "m' \<in> set rs" using Some by (rule latest_row_mem)
      with Cons.prems(1) m Cons.prems(3) have ne: "UUID r \<noteq> UUID c" by force
      have "latest_row (map (\<lambda>x. if UUID x = UUID c then c else x) rs) = Some c"
        using Cons.IH[of m'] Cons.prems Some m by simp
      with ne True m Cons.prems(4) show ?thesis by simp
    next
      case False
      with Some Cons.prems have m: "m = r" by simp
      with Cons.prems(1,3) have "UUID c \<notin> set (map UUID rs)" by simp
      then have "map (\<lambda>x. if UUID x = UUID c then c else x) rs = rs"
        by (rule map_replace_id)
      with m Cons.prems(3,4) Some False show ?thesis by simp
    qed
  qed
qed

lemma get_latest_read_through:
  assumes "\<not> db_read_fails f" "cache_read_fails f \<or> cache h = None"
  shows "get_latest_version f h =
           (case latest_row (rows h) of None \<Rightarrow> Inl NotFound | Some c \<Rightarrow> Inr (Version c))"
proof -
  have "\<exists>e. cache_GetConfig f h = Inl e"
    using assms(2) by (auto simp: cache_GetConfig_def)
  then show ?thesis
    using assms(1)
    by (auto simp: get_latest_version_def GetLatestConfig_def repo_GetLatestConfig_def
        cache_SetConfig_def NotFound_def split: option.splits)
qed

lemma Create_not_validation: "fst (Create f u n save h) \<noteq> Inl ValidationFailed"
  by (cases f u n save h rule: Create_result)
     (auto simp: ValidationFailed_def Wrap_def Database_def Create_def repo_GetLatestConfig_def
        repo_Create_def cache_SetConfig_def NotFound_def Let_def split: option.splits if_splits)

lemma Update_not_validation: "fst (Update f save h) \<noteq> Inl ValidationFailed"
  by (auto simp: ValidationFailed_def Wrap_def Database_def Update_def repo_GetLatestConfig_def
        repo_Update_def cache_SetConfig_def NotFound_def Let_def split: option.splits if_splits)


lemma Create_healthy:
  assumes "hub_wf h" "u \<notin> set (map UUID (rows h))" "int4 (next_version h)"
    "int4 (sc_PoolingInterval save)"
  shows "Create healthy u n save h =
           (Inr \<lparr>UUID = u, Version = next_version h, ConfigURL = sc_ConfigUrl save,
                  PoolingInterval = sc_PoolingInterval save, CreatedAt = n\<rparr>,
            h\<lparr>rows := rows h @ [\<lparr>UUID = u, Version = next_version h,
                                    ConfigURL = sc_ConfigUrl save,
                                    PoolingInterval = sc_PoolingInterval save, CreatedAt = n\<rparr>],
              cache := Some \<lparr>UUID = u, Version = next_version h, ConfigURL = sc_ConfigUrl save,
                             PoolingInterval = sc_PoolingInterval save, CreatedAt = n\<rparr>\<rparr>)"
proof -
  have v: "(case latest_row (rows h) of None \<Rightarrow> 1 | Some m \<Rightarrow> go_int (Version m + 1)) = next_version h"
    using assms(1) by (rule created_version)
  show ?thesis
    using assms(2-4) v
    by (cases "latest_row (rows h)")
       (simp_all add: Create_def healthy_def repo_GetLatestConfig_def repo_Create_def
          cache_SetConfig_def fits_columns_def NotFound_def Let_def)
qed

lemma Create_cache_fault:
  assumes "hub_wf h" "\<not> db_read_fails f" "\<not> db_write_fails f" "cache_write_fails f"
    "u \<notin> set (map UUID (rows h))" "int4 (next_version h)" "int4 (sc_PoolingInterval save)"
  shows "Create f u n save h =
           (Inl (Wrap (Raw ''redis'') ''config''),
            h\<lparr>rows := rows h @ [\<lparr>UUID = u, Version = next_version h,
                                    ConfigURL = sc_ConfigUrl save,
                                    PoolingInterval = sc_PoolingInterval save, CreatedAt = n\<rparr>]\<rparr>)"
proof -
  have v: "(case latest_row (rows h) of None \<Rightarrow> 1 | Some m \<Rightarrow> go_int (Version m + 1)) = next_version h"
    using assms(1) by (rule created_version)
  show ?thesis
    using assms(2-7) v
    by (cases "latest_row (rows h)")
       (simp_all add: Create_def repo_GetLatestConfig_def repo_Create_def
          cache_SetConfig_def fits_columns_def NotFound_def Let_def)
qed

lemma Update_healthy:
  assumes "hub_wf h" "latest_row (rows h) = Some m" "UUID m \<noteq> []"
    "su_PoolingInterval upd = Some i" "0 \<le> i" "int4 i"
  shows "\<exists>h' c. Update healthy upd h = (Inr (), h') \<and> latest_row (rows h') = Some c \<and>
                 PoolingInterval c = i \<and> Version c = Version m \<and> cache h' = Some c"
proof (cases healthy upd h rule: Update_result)
  case (unchanged e)
  define c where "c = (if su_ConfigUrl upd \<noteq> [] then m\<lparr>ConfigURL := su_ConfigUrl upd\<rparr> else m)\<lparr>PoolingInterval := i\<rparr>"
  have fc: "fits_columns c"
    using assms(1,6) latest_row_mem[OF assms(2)]
    by (auto simp: c_def hub_wf_def list_all_iff fits_columns_def)
  have mem: "UUID c \<in> set (map UUID (rows h))" "UUID c \<noteq> []"
    using latest_row_mem[OF assms(2)] assms(3) by (auto simp: c_def)
  have "fst (Update healthy upd h) = Inr ()"
    using assms(2,4,5) fc mem
    by (auto simp: Update_def healthy_def repo_GetLatestConfig_def repo_Update_def
        cache_SetConfig_def Let_def c_def)
  with unchanged show ?thesis by simp
next
  case (saved r m' c)
  have d: "distinct (map UUID (rows h))" using assms(1) by (simp add: hub_wf_def)
  from saved(3) assms(2) have mm: "m' = m" by simp
  have "latest_row (map (\<lambda>x. if UUID x = UUID c then c else x) (rows h)) = Some c"
    using latest_row_replace[OF d saved(3) saved(4) saved(5)] .
  moreover have "PoolingInterval c = i" using saved(11) assms(4,5) by simp
  ultimately show ?thesis
    using saved(1,2,5) mm by (simp add: healthy_def)
qed

text \<open>
  Cache coherence. A create or an update whose cache write succeeds leaves the cache
  holding the latest row of the store, a read keeps it so, and in a coherent state
  \<open>get_latest\<close> returns the latest version of the store whether it reads the cache or
  the table.
\<close>

lemma latest_row_append_next:
  assumes "Version c = next_version h"
  shows "latest_row (rows h @ [c]) = Some c"
proof (rule latest_row_append_greater)
  fix r assume r: "r \<in> set (rows h)"
  then obtain m where m: "latest_row (rows h) = Some m"
    by (cases "latest_row (rows h)") auto
  from latest_row_max[OF m r] m assms show "Version r < Version c"
    by (simp add: next_version_def stored_version_def)
qed

lemma Create_coherent:
  assumes "hub_wf h" "cache_coherent h" "\<not> cache_write_fails f"
  shows "cache_coherent (snd (Create f u n save h))"
proof (cases f u n save h rule: Create_result)
  case (unchanged e)
  then show ?thesis using assms(2) by simp
next
  case (stored e c)
  then show ?thesis using assms(3) by simp
next
  case (cached c)
  then have "Version c = next_version h"
    using created_version[OF assms(1)] by simp
  then have "latest_row (rows h @ [c]) = Some c" by (rule latest_row_append_next)
  then show ?thesis using cached(1) by (simp add: cache_coherent_def)
qed

lemma Update_coherent:
  assumes "hub_wf h" "cache_coherent h" "\<not> cache_write_fails f"
  shows "cache_coherent (snd (Update f save h))"
proof (cases f save h rule: Update_result)
  case (unchanged e)
  then show ?thesis using assms(2) by simp
next
  case (saved r m c)
  have d: "distinct (map UUID (rows h))" using assms(1) by (simp add: hub_wf_def)
  have "latest_row (map (\<lambda>x. if UUID x = UUID c then c else x) (rows h)) = Some c"
    using latest_row_replace[OF d saved(3) saved(4) saved(5)] .
  then show ?thesis using saved(1) assms(3) by (simp add: cache_coherent_def)
qed

lemma hub_step_coherent:
  assumes "hub_wf h" "cache_coherent h" "\<not> cache_write_fails (op_faults op)"
  shows "cache_coherent (hub_step h op)"
proof (cases op)
  case (OpCreate f u n save)
  then show ?thesis
    using handler_Create_cases[of f u n save h] Create_coherent[OF assms(1,2), of f u n save] assms(2,3)
    by auto
next
  case (OpUpdate f save)
  then show ?thesis
    using handler_Update_cases[of f save h] Update_coherent[OF assms(1,2), of f save] assms(2,3)
    by auto
qed

lemma hub_run_coherent:
  assumes "hub_wf h" "cache_coherent h" "\<forall>op \<in> set ops. \<not> cache_write_fails (op_faults op)"
  shows "cache_coherent (hub_run h ops)"
  using assms unfolding hub_run_def
proof (induction ops arbitrary: h)
  case Nil
  then show ?case by simp
next
  case (Cons op ops)
  then show ?case
    by (simp add: hub_step_wf hub_step_coherent)
qed

lemma GetLatestConfig_frame:
  "rows (snd (GetLatestConfig f a h)) = rows h"
  by (auto simp: GetLatestConfig_def cache_GetConfig_def repo_GetLatestConfig_def
      cache_SetConfig_def split: option.splits if_splits sum.splits)

lemma GetLatestConfig_coherent:
  assumes "cache_coherent h"
  shows "cache_coherent (snd (GetLatestConfig f a h))"
  using assms
  by (auto simp: GetLatestConfig_def cache_GetConfig_def repo_GetLatestConfig_def
      cache_SetConfig_def cache_coherent_def split: option.splits if_splits sum.splits)

lemma get_latest_coherent:
  assumes "cache_coherent h" "get_latest_version f h = Inr v"
  shows "stored_version h = Some v"
proof -
  from assms(2) obtain c where c: "fst (GetLatestConfig f None h) = Inr c" "v = Version c"
    by (cases "fst (GetLatestConfig f None h)") (auto simp: get_latest_version_def)
  have "latest_row (rows h) = Some c"
    using c(1) assms(1)
    by (auto simp: GetLatestConfig_def cache_GetConfig_def repo_GetLatestConfig_def
        cache_SetConfig_def cache_coherent_def split: option.splits if_splits sum.splits)
  with c(2) show ?thesis by (simp add: stored_version_def)
qed

text \<open>
  Claim C3, as the code has it. Take any store that satisfies the constraints of the table
  and any sequence of create and update requests, each with any pattern of failing
  database and Redis calls. The store keeps satisfying the constraints, and the version of
  its latest row (what \<open>get_latest\<close> returns whenever it reads the store: on a cache miss
  or a failed cache read) never decreases along the sequence. It increases only in a
  create. A create that succeeds returns the previous latest version plus one, or 1 for an
  empty table, and that is then the latest version of the store. An update changes the
  version of no row. When every cache write of the sequence succeeds a coherent cache
  stays coherent, and with a coherent cache \<open>get_latest\<close> returns the latest version
  of the store.
\<close>

theorem hub_versions:
  assumes "hub_wf h"
  shows "hub_wf (hub_run h ops) \<and>
         (i \<le> j \<longrightarrow>
            stored_version (hub_run h (take i ops)) \<le> stored_version (hub_run h (take j ops))) \<and>
         (stored_version h < stored_version (hub_step h op) \<longrightarrow>
            (\<exists>f u n save. op = OpCreate f u n save)) \<and>
         (handler_Create f u n save h = (Inr c, h') \<longrightarrow>
            Version c = next_version h \<and> stored_version h' = Some (next_version h)) \<and>
         map Version (rows (snd (handler_Update f upd h))) = map Version (rows h) \<and>
         ((cache_read_fails f \<or> cache h = None) \<longrightarrow> get_latest_version f h = Inr v \<longrightarrow>
            stored_version h = Some v) \<and>
         (cache_coherent h \<longrightarrow> (\<forall>op \<in> set ops. \<not> cache_write_fails (op_faults op)) \<longrightarrow>
            cache_coherent (hub_run h ops)) \<and>
         (cache_coherent h \<longrightarrow> get_latest_version f h = Inr w \<longrightarrow> stored_version h = Some w)"
proof (intro conjI impI)
  show "hub_wf (hub_run h ops)"
    using assms by (rule hub_run_wf)
  show "cache_coherent (hub_run h ops)"
    if "cache_coherent h" "\<forall>op \<in> set ops. \<not> cache_write_fails (op_faults op)"
    using assms that by (rule hub_run_coherent)
  show "stored_version h = Some w"
    if "cache_coherent h" "get_latest_version f h = Inr w"
    using that by (rule get_latest_coherent)
  show "stored_version (hub_run h (take i ops)) \<le> stored_version (hub_run h (take j ops))"
    if "i \<le> j"
    using assms that by (rule hub_run_prefix_mono)
  show "\<exists>f u n save. op = OpCreate f u n save"
    if "stored_version h < stored_version (hub_step h op)"
    using hub_step_version[OF assms, of op] that by auto
  show "Version c = next_version h" "stored_version h' = Some (next_version h)"
    if "handler_Create f u n save h = (Inr c, h')"
  proof -
    have "Create f u n save h = (Inr c, h')"
      using that handler_Create_cases[of f u n save h] by auto
    then show "Version c = next_version h" "stored_version h' = Some (next_version h)"
      using Create_ok_version[OF assms] by blast+
  qed
  show "map Version (rows (snd (handler_Update f upd h))) = map Version (rows h)"
    using handler_Update_cases[of f upd h] Update_rows[OF assms, of f upd] by auto
  show "stored_version h = Some v"
    if "cache_read_fails f \<or> cache h = None" "get_latest_version f h = Inr v"
  proof -
    from that(2) obtain c where c: "fst (GetLatestConfig f None h) = Inr c" "v = Version c"
      by (cases "fst (GetLatestConfig f None h)") (auto simp: get_latest_version_def)
    from read_through[OF that(1) c(1)] c(2) show ?thesis
      by (simp add: stored_version_def)
  qed
qed

lemma hub_v1_wf: "hub_wf hub_v1"
  by (simp add: hub_wf_def hub_v1_def config_v1_def fits_columns_def int4_def)

lemma hub_v1_next: "next_version hub_v1 = 2" "stored_version hub_v1 = Some 1"
  by (simp_all add: next_version_def stored_version_def hub_v1_def config_v1_def)

lemma hub_v1_create:
  "handler_Create healthy ''u2'' ''t2'' save_60 hub_v1 =
     (Inr config_v2, \<lparr>rows = [config_v1, config_v2], cache = Some config_v2\<rparr>)"
proof -
  have "Create healthy ''u2'' ''t2'' save_60 hub_v1 =
     (Inr config_v2, \<lparr>rows = [config_v1, config_v2], cache = Some config_v2\<rparr>)"
    using Create_healthy[OF hub_v1_wf, of "''u2''" save_60 "''t2''"]
    by (simp add: hub_v1_next int4_def save_60_def config_v2_def)
       (simp add: hub_v1_def config_v1_def)
  then show ?thesis
    by (simp add: handler_Create_def valid_SaveCreate_def save_60_def)
qed

theorem hub_versions_witness:
  "hub_wf hub_v1 \<and>
   hub_wf (hub_run hub_v1 [OpCreate healthy ''u2'' ''t2'' save_60]) \<and>
   stored_version (hub_run hub_v1 (take 0 [OpCreate healthy ''u2'' ''t2'' save_60]))
     \<le> stored_version (hub_run hub_v1 (take 1 [OpCreate healthy ''u2'' ''t2'' save_60])) \<and>
   stored_version hub_v1 < stored_version (hub_step hub_v1 (OpCreate healthy ''u2'' ''t2'' save_60)) \<and>
   Version config_v2 = next_version hub_v1 \<and>
   stored_version \<lparr>rows = [config_v1, config_v2], cache = Some config_v2\<rparr> = Some (next_version hub_v1) \<and>
   map Version (rows (snd (handler_Update healthy update_30 hub_v1))) = map Version (rows hub_v1) \<and>
   get_latest_version healthy hub_v1 = Inr 1 \<and> stored_version hub_v1 = Some 1 \<and>
   cache_coherent hub_v1 \<and>
   cache_coherent (hub_run hub_v1 [OpCreate healthy ''u2'' ''t2'' save_60])"
proof -
  have co: "cache_coherent hub_v1" by (simp add: cache_coherent_def hub_v1_def)
  have wr: "\<not> cache_write_fails healthy" by (simp add: healthy_def)
  have lt: "stored_version hub_v1 < stored_version (hub_step hub_v1 (OpCreate healthy ''u2'' ''t2'' save_60))"
    by (simp add: hub_v1_create hub_v1_next)
       (simp add: stored_version_def config_v1_def config_v2_def)
  have gl: "get_latest_version healthy hub_v1 = Inr 1"
    using get_latest_read_through[of healthy hub_v1]
    by (simp add: healthy_def hub_v1_def config_v1_def)
  have c: "cache hub_v1 = None" by (simp add: hub_v1_def)
  show ?thesis
    using hub_versions[OF hub_v1_wf, of "[OpCreate healthy ''u2'' ''t2'' save_60]" 0 1
        "OpCreate healthy ''u2'' ''t2'' save_60" healthy "''u2''" "''t2''" save_60 config_v2
        "\<lparr>rows = [config_v1, config_v2], cache = Some config_v2\<rparr>" update_30 1 1]
      hub_v1_wf hub_v1_create lt gl c co wr
    by simp
qed

text \<open>
  The claim as stated fails for the version \<open>get_latest\<close> returns from the cache. Redis
  is unreachable while version 2 is created (the row is stored, the cache keeps version 1)
  and while \<open>get_latest\<close> is called, which reads the store and returns version 2; when
  Redis is back the next \<open>get_latest\<close> returns the cached version 1.
\<close>

theorem cached_read_counterexample:
  "get_latest_version redis_down
     (hub_run hub_empty [OpCreate healthy ''u1'' ''t1'' save_30,
                         OpCreate redis_down ''u2'' ''t2'' save_60]) = Inr 2 \<and>
   get_latest_version healthy
     (snd (GetLatestConfig redis_down None
        (hub_run hub_empty [OpCreate healthy ''u1'' ''t1'' save_30,
                            OpCreate redis_down ''u2'' ''t2'' save_60]))) = Inr 1"
proof -
  have run: "hub_run hub_empty [OpCreate healthy ''u1'' ''t1'' save_30,
                               OpCreate redis_down ''u2'' ''t2'' save_60]
             = \<lparr>rows = [config_v1, config_v2], cache = Some config_v1\<rparr>"
    by (simp add: hub_run_def hub_empty_def handler_Create_def valid_SaveCreate_def save_30_def
        save_60_def Create_def healthy_def redis_down_def repo_GetLatestConfig_def
        repo_Create_def cache_SetConfig_def fits_columns_def int4_def NotFound_def go_int_def
        config_v1_def config_v2_def Let_def)
  show ?thesis
    unfolding run
    by (simp add: get_latest_version_def GetLatestConfig_def cache_GetConfig_def
        repo_GetLatestConfig_def cache_SetConfig_def redis_down_def healthy_def
        config_v1_def config_v2_def)
qed


text \<open>
  Claim C7. A create request with an interval below 30 and an update request that gives an
  interval below 30 are answered with the validation error and leave the hub as it is. A
  create request with interval 30 (and a URL) and an update request with interval 30 pass
  the validation: they are handed to the use case, which never answers with the validation
  error, and with a working database and cache the create stores a configuration with
  interval 30 (given a new uuid and a version that fits the column) and the update makes
  30 the interval of the latest configuration (given one exists, with a uuid).
\<close>

theorem interval_floor:
  "(sc_PoolingInterval save < 30 \<longrightarrow>
      handler_Create f u n save h = (Inl ValidationFailed, h)) \<and>
   (su_PoolingInterval upd = Some i \<and> i < 30 \<longrightarrow>
      handler_Update f upd h = (Inl ValidationFailed, h)) \<and>
   (sc_PoolingInterval save = 30 \<and> sc_ConfigUrl save \<noteq> [] \<longrightarrow>
      handler_Create f u n save h = Create f u n save h \<and>
      fst (handler_Create f u n save h) \<noteq> Inl ValidationFailed) \<and>
   (su_PoolingInterval upd = Some 30 \<longrightarrow>
      handler_Update f upd h = Update f upd h \<and>
      fst (handler_Update f upd h) \<noteq> Inl ValidationFailed) \<and>
   (sc_PoolingInterval save = 30 \<and> sc_ConfigUrl save \<noteq> [] \<and> hub_wf h \<and>
    u \<notin> set (map UUID (rows h)) \<and> int4 (next_version h) \<longrightarrow>
      (\<exists>c. handler_Create healthy u n save h =
              (Inr c, h\<lparr>rows := rows h @ [c], cache := Some c\<rparr>) \<and>
            PoolingInterval c = 30)) \<and>
   (su_PoolingInterval upd = Some 30 \<and> hub_wf h \<and> latest_row (rows h) = Some m \<and>
    UUID m \<noteq> [] \<longrightarrow>
      (\<exists>h' c. handler_Update healthy upd h = (Inr (), h') \<and>
               latest_row (rows h') = Some c \<and> PoolingInterval c = 30))"
proof (intro conjI impI; (elim conjE)?)
  show "handler_Create f u n save h = (Inl ValidationFailed, h)"
    if "sc_PoolingInterval save < 30"
    using that by (simp add: handler_Create_def valid_SaveCreate_def)
  show "handler_Update f upd h = (Inl ValidationFailed, h)"
    if "su_PoolingInterval upd = Some i" "i < 30"
    using that by (simp add: handler_Update_def valid_SaveUpdate_def)
  show "handler_Create f u n save h = Create f u n save h"
    if "sc_PoolingInterval save = 30" "sc_ConfigUrl save \<noteq> []"
    using that by (simp add: handler_Create_def valid_SaveCreate_def)
  then show "fst (handler_Create f u n save h) \<noteq> Inl ValidationFailed"
    if "sc_PoolingInterval save = 30" "sc_ConfigUrl save \<noteq> []"
    using that Create_not_validation[of f u n save h] by simp
  show "handler_Update f upd h = Update f upd h"
    if "su_PoolingInterval upd = Some 30"
    using that by (simp add: handler_Update_def valid_SaveUpdate_def)
  then show "fst (handler_Update f upd h) \<noteq> Inl ValidationFailed"
    if "su_PoolingInterval upd = Some 30"
    using that Update_not_validation[of f upd h] by simp
  show "\<exists>c. handler_Create healthy u n save h =
              (Inr c, h\<lparr>rows := rows h @ [c], cache := Some c\<rparr>) \<and> PoolingInterval c = 30"
    if "sc_PoolingInterval save = 30" "sc_ConfigUrl save \<noteq> []" "hub_wf h"
      "u \<notin> set (map UUID (rows h))" "int4 (next_version h)"
  proof -
    have "int4 (sc_PoolingInterval save)" using that(1) by (simp add: int4_def)
    from Create_healthy[OF that(3) that(4) that(5) this, of n] that(1,2)
    show ?thesis
      by (simp add: handler_Create_def valid_SaveCreate_def)
  qed
  show "\<exists>h' c. handler_Update healthy upd h = (Inr (), h') \<and>
               latest_row (rows h') = Some c \<and> PoolingInterval c = 30"
    if "su_PoolingInterval upd = Some 30" "hub_wf h" "latest_row (rows h) = Some m" "UUID m \<noteq> []"
  proof -
    have "int4 30" by (simp add: int4_def)
    from Update_healthy[OF that(2) that(3) that(4) that(1) _ this] that(1)
    show ?thesis
      by (auto simp add: handler_Update_def valid_SaveUpdate_def)
  qed
qed

theorem interval_floor_witness:
  "handler_Create healthy ''u2'' ''t2'' (save_30\<lparr>sc_PoolingInterval := 29\<rparr>) hub_v1
     = (Inl ValidationFailed, hub_v1) \<and>
   handler_Update healthy (update_30\<lparr>su_PoolingInterval := Some 29\<rparr>) hub_v1
     = (Inl ValidationFailed, hub_v1) \<and>
   fst (handler_Create healthy ''u2'' ''t2'' save_30 hub_v1) \<noteq> Inl ValidationFailed \<and>
   fst (handler_Update healthy update_30 hub_v1) \<noteq> Inl ValidationFailed \<and>
   (\<exists>c. handler_Create healthy ''u2'' ''t2'' save_30 hub_v1 =
           (Inr c, hub_v1\<lparr>rows := rows hub_v1 @ [c], cache := Some c\<rparr>) \<and>
         PoolingInterval c = 30) \<and>
   (\<exists>h' c. handler_Update healthy update_30 hub_v1 = (Inr (), h') \<and>
            latest_row (rows h') = Some c \<and> PoolingInterval c = 30)"
proof -
  have a: "sc_PoolingInterval (save_30\<lparr>sc_PoolingInterval := 29\<rparr>) < 30"
    "su_PoolingInterval (update_30\<lparr>su_PoolingInterval := Some 29\<rparr>) = Some 29"
    "sc_PoolingInterval save_30 = 30" "sc_ConfigUrl save_30 \<noteq> []"
    "su_PoolingInterval update_30 = Some 30"
    by (simp_all add: save_30_def update_30_def)
  have b: "''u2'' \<notin> set (map UUID (rows hub_v1))" "int4 (next_version hub_v1)"
    "latest_row (rows hub_v1) = Some config_v1" "UUID config_v1 \<noteq> []"
    by (simp_all add: hub_v1_next int4_def) (simp_all add: hub_v1_def config_v1_def)
  have lt: "(29 :: int) < 30" by simp
  from interval_floor[of "save_30\<lparr>sc_PoolingInterval := 29\<rparr>" healthy "''u2''" "''t2''" hub_v1
            "update_30\<lparr>su_PoolingInterval := Some 29\<rparr>" 29 config_v1] a(1,2) lt
  have r1: "handler_Create healthy ''u2'' ''t2'' (save_30\<lparr>sc_PoolingInterval := 29\<rparr>) hub_v1
              = (Inl ValidationFailed, hub_v1)"
           "handler_Update healthy (update_30\<lparr>su_PoolingInterval := Some 29\<rparr>) hub_v1
              = (Inl ValidationFailed, hub_v1)"
    by blast+
  from interval_floor[of save_30 healthy "''u2''" "''t2''" hub_v1 update_30 30 config_v1]
    a(3-5) b hub_v1_wf
  have r2: "fst (handler_Create healthy ''u2'' ''t2'' save_30 hub_v1) \<noteq> Inl ValidationFailed"
    "fst (handler_Update healthy update_30 hub_v1) \<noteq> Inl ValidationFailed"
    "\<exists>c. handler_Create healthy ''u2'' ''t2'' save_30 hub_v1 =
           (Inr c, hub_v1\<lparr>rows := rows hub_v1 @ [c], cache := Some c\<rparr>) \<and>
         PoolingInterval c = 30"
    "\<exists>h' c. handler_Update healthy update_30 hub_v1 = (Inr (), h') \<and>
            latest_row (rows h') = Some c \<and> PoolingInterval c = 30"
    by blast+
  show ?thesis
    using r1 r2 by blast
qed

text \<open>
  Claim C10. When the database calls of a create succeed (the read and the insert of a
  row with a new uuid whose values fit their columns) and the write to the cache fails,
  \<open>Create\<close> returns an error, the cache is as before, and the row is stored: the latest
  version of the store has advanced to the previous one plus one (1 for an empty table),
  and every later \<open>get_latest\<close> that reads the store returns it.
\<close>

theorem create_not_atomic:
  assumes "hub_wf h" "\<not> db_read_fails f" "\<not> db_write_fails f" "cache_write_fails f"
    "u \<notin> set (map UUID (rows h))" "int4 (next_version h)" "int4 (sc_PoolingInterval save)"
  shows "\<exists>e h'. Create f u n save h = (Inl e, h') \<and>
           cache h' = cache h \<and>
           stored_version h' = Some (next_version h) \<and>
           stored_version h < stored_version h' \<and>
           (\<forall>f'. \<not> db_read_fails f' \<and> (cache_read_fails f' \<or> cache h' = None) \<longrightarrow>
                  get_latest_version f' h' = Inr (next_version h))"
proof -
  define c where "c = \<lparr>UUID = u, Version = next_version h, ConfigURL = sc_ConfigUrl save,
                        PoolingInterval = sc_PoolingInterval save, CreatedAt = n\<rparr>"
  define h' where "h' = h\<lparr>rows := rows h @ [c]\<rparr>"
  have cr: "Create f u n save h = (Inl (Wrap (Raw ''redis'') ''config''), h')"
    using Create_cache_fault[OF assms, of n] by (simp add: h'_def c_def)
  have v: "Version c = next_version h" by (simp add: c_def)
  have sv: "stored_version h' = Some (next_version h)"
    unfolding h'_def using v by (rule stored_version_append)
  have lr: "\<exists>m. latest_row (rows h') = Some m \<and> Version m = next_version h"
    using sv by (auto simp: stored_version_def)
  have "get_latest_version f' h' = Inr (next_version h)"
    if "\<not> db_read_fails f'" "cache_read_fails f' \<or> cache h' = None" for f'
    using get_latest_read_through[OF that] lr by auto
  then show ?thesis
    using cr sv stored_version_less_next[of h] by (auto simp: h'_def)
qed

theorem create_not_atomic_witness:
  "(\<exists>e. fst (Create redis_down ''u2'' ''t2'' save_60 hub_v1) = Inl e) \<and>
   stored_version hub_v1 = Some 1 \<and>
   stored_version (snd (Create redis_down ''u2'' ''t2'' save_60 hub_v1)) = Some 2 \<and>
   get_latest_version healthy (snd (Create redis_down ''u2'' ''t2'' save_60 hub_v1)) = Inr 2"
proof -
  have a: "\<not> db_read_fails redis_down" "\<not> db_write_fails redis_down" "cache_write_fails redis_down"
    "\<not> db_read_fails healthy"
    by (simp_all add: redis_down_def healthy_def)
  have b: "''u2'' \<notin> set (map UUID (rows hub_v1))" "int4 (next_version hub_v1)"
    "int4 (sc_PoolingInterval save_60)" "cache hub_v1 = None"
    by (simp_all add: hub_v1_next int4_def save_60_def) (simp_all add: hub_v1_def config_v1_def)
  from create_not_atomic[OF hub_v1_wf a(1-3) b(1-3), of "''t2''"]
  obtain e h' where r: "Create redis_down ''u2'' ''t2'' save_60 hub_v1 = (Inl e, h')"
    "cache h' = cache hub_v1" "stored_version h' = Some (next_version hub_v1)"
    "\<forall>f'. \<not> db_read_fails f' \<and> (cache_read_fails f' \<or> cache h' = None) \<longrightarrow>
                  get_latest_version f' h' = Inr (next_version hub_v1)"
    by blast
  from r(2,4) a(4) b(4) have "get_latest_version healthy h' = Inr (next_version hub_v1)"
    by simp
  with r(1,3) show ?thesis
    by (simp add: hub_v1_next)
qed

section \<open>Properties of the relay\<close>

lemma seconds_int4: "int4 n \<Longrightarrow> seconds n = n * 1000000000"
  by (simp add: seconds_def go_int_def int4_def)

lemma seconds_inj_int4: "int4 a \<Longrightarrow> int4 b \<Longrightarrow> seconds a = seconds b \<longleftrightarrow> a = b"
  by (simp add: seconds_int4)

lemma poll_tick_fetch_error: "poll_tick None push_ok s = Inr s"
  by (simp add: poll_tick_def)

lemma poll_tick_invariant:
  assumes "lastConfig s < length (heap s)" "poll_tick fetched push_ok s = Inr s'"
  shows "lastConfig s' < length (heap s')"
  using assms by (cases fetched) (auto simp: poll_tick_def Let_def split: if_splits)

lemma relay_start_invariant: "lastConfig (relay_start c0) < length (heap (relay_start c0))"
  by (simp add: relay_start_def)

text \<open>
  Claim C1 on the polling loop of \<open>main.go\<close>. The condition of the loop compares the
  pointer it has just received with \<open>lastConfig\<close>. \<open>lastConfig\<close> points to an object
  allocated earlier (\<open>relay_start_invariant\<close>, \<open>poll_tick_invariant\<close>) and the pointer
  received to a new one, so the two are never equal: every cycle whose fetch succeeds
  calls \<open>pushConfigToWorker\<close>, whatever the versions and the counter are.
\<close>

theorem poll_tick_always_pushes:
  assumes "lastConfig s < length (heap s)"
  shows "pushed s (poll_tick (Some c) push_ok s)"
  using assms by (auto simp: poll_tick_def pushed_def Let_def)

text \<open>
  In the scenario of the specification the relay holds version 1 and fetches version 1
  again, with the counter at 0: neither the version nor the counter asks for a push, and
  the relay pushes.
\<close>

theorem poll_pushes_unchanged_config:
  "applied (relay_start config_v1) = Some config_v1 \<and>
   \<not> spec_should_push config_v1 (relay_start config_v1) \<and>
   pushed (relay_start config_v1) (poll_tick (Some config_v1) True (relay_start config_v1)) \<and>
   map_sum id pushes (poll_tick (Some config_v1) True (relay_start config_v1)) = Inr [(1, True)]"
proof -
  have "pushed (relay_start config_v1) (poll_tick (Some config_v1) True (relay_start config_v1))"
    using poll_tick_always_pushes[of "relay_start config_v1" config_v1 True]
    by (simp add: relay_start_def)
  moreover have "applied (relay_start config_v1) = Some config_v1"
    "\<not> spec_should_push config_v1 (relay_start config_v1)"
    "map_sum id pushes (poll_tick (Some config_v1) True (relay_start config_v1)) = Inr [(1, True)]"
    by (simp_all add: applied_def spec_should_push_def poll_tick_def relay_start_def
        config_v1_def seconds_def go_int_def Let_def)
  ultimately show ?thesis by simp
qed

text \<open>
  Claim C2, as the code has it. A cycle whose fetch fails changes nothing. A cycle that
  calls \<open>pushConfigToWorker\<close> makes the fetched configuration the last applied one
  whatever the call returns (its result is only logged), and a cycle that does not call it
  leaves \<open>lastConfig\<close> as it is.
\<close>

theorem poll_tick_last_config:
  "poll_tick None push_ok s = Inr s \<and>
   (poll_tick (Some c) push_ok s = Inr s' \<longrightarrow>
      (pushed s (Inr s') \<longrightarrow>
         applied s' = Some c \<and> pushes s' = (lastConfig s', push_ok) # pushes s) \<and>
      (\<not> pushed s (Inr s') \<longrightarrow> lastConfig s' = lastConfig s))"
  by (auto simp: poll_tick_def pushed_def applied_def Let_def split: if_splits)

theorem poll_tick_last_config_witness:
  "map_sum id applied (poll_tick (Some config_v2) True (relay_start config_v1)) = Inr (Some config_v2) \<and>
   map_sum id pushes (poll_tick (Some config_v2) True (relay_start config_v1)) = Inr [(1, True)] \<and>
   map_sum id applied (poll_tick (Some config_v2) False (relay_start config_v1)) = Inr (Some config_v2) \<and>
   map_sum id pushes (poll_tick (Some config_v2) False (relay_start config_v1)) = Inr [(1, False)]"
proof -
  define s0 where "s0 = relay_start config_v1"
  have st: "\<And>ok. poll_tick (Some config_v2) ok s0 =
      Inr \<lparr>heap = [config_v1, config_v2], lastConfig = 1, countFetch = 0,
           interval = 60000000000, ticker = 60000000000, pushes = [(1, ok)]\<rparr>"
    by (simp add: s0_def poll_tick_def relay_start_def config_v1_def config_v2_def seconds_def
        go_int_def Let_def)
  have p: "\<And>ok. pushed s0 (Inr \<lparr>heap = [config_v1, config_v2], lastConfig = 1, countFetch = 0,
           interval = 60000000000, ticker = 60000000000, pushes = [(1, ok)]\<rparr>)"
    by (simp add: pushed_def s0_def relay_start_def)
  from poll_tick_last_config[of True s0 config_v2 "\<lparr>heap = [config_v1, config_v2], lastConfig = 1, countFetch = 0,
           interval = 60000000000, ticker = 60000000000, pushes = [(1, True)]\<rparr>"]
       poll_tick_last_config[of False s0 config_v2 "\<lparr>heap = [config_v1, config_v2], lastConfig = 1, countFetch = 0,
           interval = 60000000000, ticker = 60000000000, pushes = [(1, False)]\<rparr>"]
       st p
  show ?thesis
    unfolding s0_def[symmetric] by (simp add: s0_def relay_start_def)
qed

text \<open>
  The claim as stated fails when the push of version 2 fails: the last applied
  configuration was version 1 and is version 2 after the cycle.
\<close>

theorem failed_push_counterexample:
  "applied (relay_start config_v1) = Some config_v1 \<and>
   map_sum id applied (poll_tick (Some config_v2) False (relay_start config_v1)) = Inr (Some config_v2) \<and>
   map_sum id pushes (poll_tick (Some config_v2) False (relay_start config_v1)) = Inr [(1, False)]"
  by (simp add: applied_def poll_tick_def relay_start_def config_v1_def config_v2_def seconds_def
      go_int_def Let_def)


text \<open>
  Claim C6, as the code has it. Intervals that fit the column are different exactly when
  their durations are. A cycle that calls \<open>pushConfigToWorker\<close> and has fetched an
  interval different from the current one resets the ticker to the new interval, whatever
  the call returns; a cycle that does not call it, or fetches the current interval, leaves
  the ticker as it is.
\<close>

theorem poll_tick_timer:
  "(int4 a \<and> int4 b \<longrightarrow> (seconds a = seconds b \<longleftrightarrow> a = b) \<and> seconds a = a * 1000000000) \<and>
   (poll_tick (Some c) push_ok s = Inr s' \<longrightarrow>
      (pushed s (Inr s') \<and> seconds (PoolingInterval c) \<noteq> interval s \<longrightarrow>
         ticker s' = seconds (PoolingInterval c) \<and> interval s' = seconds (PoolingInterval c) \<and>
         pushes s' = (lastConfig s', push_ok) # pushes s) \<and>
      (\<not> pushed s (Inr s') \<or> seconds (PoolingInterval c) = interval s \<longrightarrow>
         ticker s' = ticker s \<and> interval s' = interval s))"
proof (intro conjI impI)
  show "seconds a = seconds b \<longleftrightarrow> a = b" if "int4 a \<and> int4 b"
    using that by (simp add: seconds_inj_int4)
  show "seconds a = a * 1000000000" if "int4 a \<and> int4 b"
    using that by (simp add: seconds_int4)
  assume t: "poll_tick (Some c) push_ok s = Inr s'"
  show "ticker s' = seconds (PoolingInterval c)" "interval s' = seconds (PoolingInterval c)"
    "pushes s' = (lastConfig s', push_ok) # pushes s"
    if "pushed s (Inr s') \<and> seconds (PoolingInterval c) \<noteq> interval s"
    using t that by (auto simp: poll_tick_def pushed_def Let_def split: if_splits)
  show "ticker s' = ticker s" "interval s' = interval s"
    if "\<not> pushed s (Inr s') \<or> seconds (PoolingInterval c) = interval s"
    using t that by (auto simp: poll_tick_def pushed_def Let_def split: if_splits)
qed

theorem poll_tick_timer_witness:
  "seconds 60 \<noteq> seconds 30 \<and> seconds 60 = 60000000000 \<and>
   map_sum id ticker (poll_tick (Some config_v2) False (relay_start config_v1)) = Inr 60000000000 \<and>
   map_sum id pushes (poll_tick (Some config_v2) False (relay_start config_v1)) = Inr [(1, False)] \<and>
   map_sum id ticker (poll_tick (Some config_v1) False (relay_start config_v1)) = Inr 30000000000"
proof -
  define s0 where "s0 = relay_start config_v1"
  define s2 where "s2 = \<lparr>heap = [config_v1, config_v2], lastConfig = 1, countFetch = 0,
           interval = 60000000000, ticker = 60000000000, pushes = [(1, False)]\<rparr>"
  define s1 where "s1 = \<lparr>heap = [config_v1, config_v1], lastConfig = 1, countFetch = 0,
           interval = 30000000000, ticker = 30000000000, pushes = [(1, False)]\<rparr>"
  have i: "int4 60" "int4 30" by (simp_all add: int4_def)
  have st: "poll_tick (Some config_v2) False s0 = Inr s2" "poll_tick (Some config_v1) False s0 = Inr s1"
    by (simp_all add: s0_def s1_def s2_def poll_tick_def relay_start_def config_v1_def
        config_v2_def seconds_def go_int_def Let_def)
  have p: "pushed s0 (Inr s2)" "pushed s0 (Inr s1)"
    by (simp_all add: pushed_def s0_def s1_def s2_def relay_start_def)
  have v: "interval s0 = seconds 30" "PoolingInterval config_v2 = 60" "PoolingInterval config_v1 = 30"
    "ticker s0 = 30000000000"
    by (simp_all add: s0_def relay_start_def config_v1_def config_v2_def seconds_def go_int_def)
  from poll_tick_timer[of 60 30 config_v2 False s0 s2] i st(1) p(1) v
  have a: "seconds 60 \<noteq> seconds 30" "seconds 60 = 60000000000" "ticker s2 = seconds 60"
    "pushes s2 = (lastConfig s2, False) # pushes s0"
    by simp_all
  from poll_tick_timer[of 60 30 config_v1 False s0 s1] st(2) v
  have b: "ticker s1 = ticker s0"
    by simp
  show ?thesis
    unfolding s0_def[symmetric] st using a b v(4)
    by (simp add: s2_def s0_def relay_start_def)
qed

text \<open>
  The claim as stated fails when the push of the configuration with interval 60 fails:
  the ticker ran at 30 seconds and runs at 60 seconds after the cycle.
\<close>

theorem timer_reset_counterexample:
  "ticker (relay_start config_v1) = 30000000000 \<and>
   map_sum id ticker (poll_tick (Some config_v2) False (relay_start config_v1)) = Inr 60000000000 \<and>
   map_sum id pushes (poll_tick (Some config_v2) False (relay_start config_v1)) = Inr [(1, False)]"
  by (simp add: poll_tick_def relay_start_def config_v1_def config_v2_def seconds_def
      go_int_def Let_def)

text \<open>
  The other poll cycle, \<open>ConfigScheduler.fetchConfig\<close>, compares versions and has no
  counter; it also replaces the ticker before it hands the configuration on.
\<close>

lemma fetchConfig_update_iff:
  assumes "fetchConfig (Some c) s = Inr s'" "onConfigUpdate s"
  shows "updates s' = c # updates s \<longleftrightarrow>
           (case currentConfig s of None \<Rightarrow> True | Some cur \<Rightarrow> Version c > Version cur)"
    and "updates s' = updates s \<or> updates s' = c # updates s"
  using assms
  by (auto simp: fetchConfig_def updateInterval_def Let_def split: option.splits if_splits)

lemma fetchConfig_interval_before_callback:
  assumes "currentConfig s = Some cur" "Version cur < Version c"
    "PoolingInterval cur \<noteq> PoolingInterval c" "0 < seconds (PoolingInterval c)"
  shows "\<exists>s'. fetchConfig (Some c) s = Inr s' \<and> sched_ticker s' = Some (seconds (PoolingInterval c))"
  using assms by (auto simp: fetchConfig_def updateInterval_def Let_def)

section \<open>Properties of the leaf\<close>

text \<open>
  While the mutex is free, a valid push replaces the held configuration, whatever the two
  versions are.
\<close>

lemma UpdateConfig_overwrites:
  assumes "\<not> configMutex l" "valid_UpdateConfigRequest req"
  shows "handler_UpdateConfig req l =
           Returned (None, l\<lparr>globalConfig := Some \<lparr>w_ConfigURL = r_ConfigURL req,
                                                   w_PoolingInterval = r_PoolingInterval req,
                                                   w_Version = r_Version req,
                                                   w_UUID = r_UUID req\<rparr>\<rparr>)"
  using assms by (simp add: handler_UpdateConfig_def UpdateConfig_def)

lemma lower_version_overwrites:
  "handler_UpdateConfig push_v1 \<lparr>globalConfig = Some worker_v2, configMutex = False\<rparr> =
     Returned (None, \<lparr>globalConfig = Some worker_v1, configMutex = False\<rparr>)"
  by (simp add: handler_UpdateConfig_def UpdateConfig_def valid_UpdateConfigRequest_def
      push_v1_def worker_v1_def)

lemma mutex_held_only_without_config:
  "Hit unmarshal http_get l = Returned (r, l') \<Longrightarrow> configMutex l' \<Longrightarrow> \<not> configMutex l \<Longrightarrow>
   globalConfig l' = None"
  by (auto simp: Hit_def Let_def split: if_splits option.splits http_result.splits)

text \<open>
  Claim C5 on the code. \<open>Hit\<close> returns without unlocking when no configuration is held.
  After a \<open>GET /hit\<close> on a worker that has not received a push, the mutex stays held:
  the next valid push waits for it and never returns, and so does the next \<open>Hit\<close>.
\<close>

theorem push_blocked_after_early_hit:
  "valid_UpdateConfigRequest push_v1 \<and>
   Hit unmarshal http_get leaf_start = Returned (Inl NotFound, leaf_start\<lparr>configMutex := True\<rparr>) \<and>
   handler_UpdateConfig push_v1 (leaf_start\<lparr>configMutex := True\<rparr>) = Blocked \<and>
   Hit unmarshal http_get (leaf_start\<lparr>configMutex := True\<rparr>) = Blocked"
  by (simp add: valid_UpdateConfigRequest_def push_v1_def Hit_def leaf_start_def
      handler_UpdateConfig_def UpdateConfig_def)

text \<open>
  Claim C9 on the code. Both branches after \<open>json.Unmarshal\<close> return
  \<open>string(bodyBytes)\<close>: \<open>Hit\<close> never returns a decoded value, whatever the decoder does,
  and for the body \<open>[1,2,3]\<close> it returns the text.
\<close>

theorem Hit_returns_raw_text:
  "Hit unmarshal http_get l \<noteq> Returned (Inr (ParsedJSON j), l') \<and>
   Hit unmarshal json_target \<lparr>globalConfig = Some worker_v1, configMutex = False\<rparr> =
     Returned (Inr (RawText ''[1,2,3]''), \<lparr>globalConfig = Some worker_v1, configMutex = False\<rparr>)"
proof
  show "Hit unmarshal http_get l \<noteq> Returned (Inr (ParsedJSON j), l')"
    by (auto simp: Hit_def Let_def split: option.splits http_result.splits)
  show "Hit unmarshal json_target \<lparr>globalConfig = Some worker_v1, configMutex = False\<rparr> =
     Returned (Inr (RawText ''[1,2,3]''), \<lparr>globalConfig = Some worker_v1, configMutex = False\<rparr>)"
    by (cases "unmarshal ''[1,2,3]''") (simp_all add: Hit_def worker_v1_def json_target_def)
qed

end
